theory Spec2Isabelle
  imports Complex_Main "HOL-Library.Sublist"
begin

section \<open>Pipeline data model (pipeline.py)\<close>

text \<open>
  Python strings are modelled as \<open>string\<close> (ASCII text), datetimes and float seconds as
  \<open>real\<close> (seconds), dictionaries with string keys as association lists, and a raised
  exception as a value of \<open>py_exception\<close> (its class name and its message).
\<close>

datatype py_exception = PyExc (exc_type: string) (exc_msg: string)

datatype log_level = DEBUG | INFO | WARNING | ERROR

type_synonym log_record = "log_level \<times> string"

datatype PipelineStage =
  INITIALIZE | EXTRACT_ZIP | EXTRACT_MSI | EXTRACT_DLL
  | ANALYZE_STRINGS | ANALYZE_URLS | PROCESS_ISO | FINALIZE

datatype StageStatus = PENDING | RUNNING | COMPLETED | FAILED | SKIPPED

record StageResult =
  stage :: PipelineStage
  status :: StageStatus
  start_time :: real
  end_time :: "real option"
  duration :: "real option"
  success :: bool
  error_message :: "string option"
  stage_metadata :: "(string \<times> string) list"
  artifacts :: "string list"

record FileHash =
  fh_path :: string
  fh_sha256 :: string
  fh_size :: nat
  fh_modified_time :: "real option"
  fh_file_type :: "string option"

record SampleMetadata =
  sample_path :: string
  sample_name :: string
  sample_size :: nat
  sha256_hash :: string
  analysis_start :: real
  analysis_end :: "real option"
  total_duration :: "real option"
  session_id :: string
  extracted_files :: "(string \<times> string) list list"
  file_hashes :: "(string \<times> FileHash) list"
  msi_info :: "(string \<times> string) list option"
  dll_info :: "(string \<times> string) list option"
  strings_count :: nat
  urls_found :: "string list"
  cnc_url :: "string option"
  download_url :: "string option"
  network_status :: "(string \<times> string) list"
  stages :: "StageResult list"
  threat_level :: string
  malware_family :: string
  analysis_summary :: string

record PipelineContext =
  ctx_sample_path :: string
  ctx_session_id :: string
  temp_dir :: string
  work_dir :: "string option"
  metadata :: SampleMetadata
  stage_results :: "StageResult list"

text \<open>\<open>PipelineContext.add_stage_result\<close>: the result is appended to both histories.\<close>

definition add_stage_result :: "PipelineContext \<Rightarrow> StageResult \<Rightarrow> PipelineContext" where
  "add_stage_result ctx result =
     ctx\<lparr>stage_results := stage_results ctx @ [result],
         metadata := (metadata ctx)\<lparr>stages := stages (metadata ctx) @ [result]\<rparr>\<rparr>"

text \<open>\<open>PipelineContext.get_stage_result\<close>: the first recorded result of a stage.\<close>

definition get_stage_result :: "PipelineContext \<Rightarrow> PipelineStage \<Rightarrow> StageResult option" where
  "get_stage_result ctx st = find (\<lambda>r. stage r = st) (stage_results ctx)"

text \<open>\<open>PipelineContext.mark_completed\<close>; \<open>now\<close> is the clock reading of \<open>datetime.now()\<close>.\<close>

definition mark_completed :: "real \<Rightarrow> PipelineContext \<Rightarrow> PipelineContext" where
  "mark_completed now ctx =
     ctx\<lparr>metadata := (metadata ctx)\<lparr>analysis_end := Some now,
                                       total_duration := Some (now - analysis_start (metadata ctx))\<rparr>\<rparr>"

text \<open>
  \<open>PipelineStep.create_result\<close>. \<open>now\<close> is the clock reading taken at the call. The
  test \<open>if duration:\<close> is Python truthiness: neither \<open>None\<close> nor zero.
\<close>

definition create_result ::
  "real \<Rightarrow> PipelineStage \<Rightarrow> bool \<Rightarrow> string option \<Rightarrow> (string \<times> string) list option
     \<Rightarrow> string list option \<Rightarrow> real option \<Rightarrow> StageResult" where
  "create_result now stg succ err md arts dur =
     \<lparr>stage = stg,
      status = (if succ then COMPLETED else FAILED),
      start_time = now,
      end_time = (case dur of
                    None \<Rightarrow> Some now
                  | Some d \<Rightarrow> if d \<noteq> 0 then Some (now + d) else Some now),
      duration = dur,
      success = succ,
      error_message = err,
      stage_metadata = (case md of None \<Rightarrow> [] | Some m \<Rightarrow> m),
      artifacts = (case arts of None \<Rightarrow> [] | Some a \<Rightarrow> a)\<rparr>"

text \<open>
  A \<open>PipelineStep\<close>: its name, its gate and its \<open>execute\<close>, which may update the context
  and either returns a result or raises.
\<close>

record step =
  step_name :: string
  can_execute :: "PipelineContext \<Rightarrow> bool"
  step_execute :: "PipelineContext \<Rightarrow> PipelineContext \<times> (py_exception + StageResult)"

section \<open>The stage engine (AnalysisPipeline)\<close>

text \<open>How an f-string prints an optional string.\<close>

definition str_opt :: "string option \<Rightarrow> string" where
  "str_opt x = (case x of None \<Rightarrow> ''None'' | Some s \<Rightarrow> s)"

datatype loop_exit = Exhausted | Broke | Raised py_exception

text \<open>
  The \<open>for step in self.steps\<close> loop of \<open>AnalysisPipeline.execute\<close>, with the records the
  pipeline's logger receives. The loop ends by running out of steps, by \<open>break\<close>, or by
  an exception a step raised.
\<close>

fun run_steps ::
  "step list \<Rightarrow> PipelineContext \<Rightarrow> log_record list \<Rightarrow> loop_exit \<times> PipelineContext \<times> log_record list" where
  "run_steps [] ctx lg = (Exhausted, ctx, lg)"
| "run_steps (s # ss) ctx lg =
     (if can_execute s ctx then
        (let lg1 = lg @ [(INFO, ''Executing step: '' @ step_name s)] in
         case step_execute s ctx of
           (ctx1, Inl e) \<Rightarrow> (Raised e, ctx1, lg1)
         | (ctx1, Inr result) \<Rightarrow>
             (let ctx2 = add_stage_result ctx1 result in
              if \<not> success result \<and> stage result \<noteq> PROCESS_ISO
              then (Broke, ctx2,
                    lg1 @ [(ERROR, ''Step '' @ step_name s @ '' failed: ''
                                   @ str_opt (error_message result))])
              else run_steps ss ctx2 lg1))
      else run_steps ss ctx (lg @ [(INFO, ''Skipping step: '' @ step_name s)]))"

text \<open>Python truthiness of an optional dictionary and of a list.\<close>

definition truthy_dict :: "(string \<times> string) list option \<Rightarrow> bool" where
  "truthy_dict d = (case d of None \<Rightarrow> False | Some kvs \<Rightarrow> kvs \<noteq> [])"

text \<open>The threat assessment of \<open>_generate_summary\<close>.\<close>

definition assess_threat :: "SampleMetadata \<Rightarrow> SampleMetadata" where
  "assess_threat m =
     (if truthy_dict (dll_info m) \<and> urls_found m \<noteq> []
      then m\<lparr>threat_level := ''high'', malware_family := ''Grandoreiro''\<rparr>
      else if urls_found m \<noteq> []
      then m\<lparr>threat_level := ''medium'', malware_family := ''Suspicious''\<rparr>
      else m\<lparr>threat_level := ''low'', malware_family := ''Unknown''\<rparr>)"

text \<open>Decimal printing of a natural number, and \<open>" | ".join\<close>.\<close>

fun str_nat :: "nat \<Rightarrow> string" where
  "str_nat n =
     (if n < 10 then [char_of (48 + n)]
      else str_nat (n div 10) @ [char_of (48 + n mod 10)])"

fun join_bar :: "string list \<Rightarrow> string" where
  "join_bar [] = []"
| "join_bar [x] = x"
| "join_bar (x # y # ys) = x @ '' | '' @ join_bar (y # ys)"

text \<open>
  \<open>AnalysisPipeline._generate_summary\<close>. The parameter \<open>fmt1\<close> is the float formatting
  \<open>:.1f\<close>. Formatting a duration of \<open>None\<close> raises \<open>TypeError\<close>, after the threat
  assessment has been stored.
\<close>

definition generate_summary ::
  "(real \<Rightarrow> string) \<Rightarrow> PipelineContext \<Rightarrow> PipelineContext \<times> py_exception option" where
  "generate_summary fmt1 ctx =
     (let m0 = metadata ctx;
          successful_stages = length (filter success (stages m0));
          m = assess_threat m0
      in case total_duration m of
           None \<Rightarrow> (ctx\<lparr>metadata := m\<rparr>,
                     Some (PyExc ''TypeError'' ''unsupported format string passed to NoneType.__format__''))
         | Some d \<Rightarrow>
             (let summary_parts =
                    [''Analysis completed in '' @ fmt1 d @ ''s'',
                     str_nat successful_stages @ ''/'' @ str_nat (length (stages m)) @ '' stages successful'',
                     ''Threat level: '' @ threat_level m,
                     ''Malware family: '' @ malware_family m]
                    @ (case cnc_url m of
                         None \<Rightarrow> []
                       | Some u \<Rightarrow> if u \<noteq> [] then [''C&C server identified: '' @ u] else [])
              in (ctx\<lparr>metadata := m\<lparr>analysis_summary := join_bar summary_parts\<rparr>\<rparr>, None)))"

text \<open>
  \<open>AnalysisPipeline.execute\<close>: the loop, then \<open>mark_completed\<close> and the summary; an
  exception from any of them is caught and written into the summary. The Python
  function returns \<open>context.metadata\<close>; the model returns the updated context and the log.
\<close>

definition start_record :: "PipelineContext \<Rightarrow> log_record" where
  "start_record ctx = (INFO, ''Starting pipeline execution for '' @ ctx_sample_path ctx)"

definition pipeline_failed :: "py_exception \<Rightarrow> PipelineContext \<Rightarrow> log_record list
     \<Rightarrow> PipelineContext \<times> log_record list" where
  "pipeline_failed e ctx lg =
     (ctx\<lparr>metadata := (metadata ctx)\<lparr>analysis_summary := ''Pipeline failed: '' @ exc_msg e\<rparr>\<rparr>,
      lg @ [(ERROR, ''Pipeline execution failed: '' @ exc_msg e)])"

definition AnalysisPipeline_execute ::
  "(real \<Rightarrow> string) \<Rightarrow> real \<Rightarrow> step list \<Rightarrow> PipelineContext \<Rightarrow> log_record list
     \<Rightarrow> PipelineContext \<times> log_record list" where
  "AnalysisPipeline_execute fmt1 now steps ctx lg =
     (let lg0 = lg @ [start_record ctx] in
      case run_steps steps ctx lg0 of
        (Raised e, ctx1, lg1) \<Rightarrow> pipeline_failed e ctx1 lg1
      | (_, ctx1, lg1) \<Rightarrow>
          (case generate_summary fmt1 (mark_completed now ctx1) of
             (ctx2, Some e) \<Rightarrow> pipeline_failed e ctx2 lg1
           | (ctx2, None) \<Rightarrow> (ctx2, lg1)))"

section \<open>Properties of recorded results and of the log\<close>

definition result_consistent :: "StageResult \<Rightarrow> bool" where
  "result_consistent r =
     ((status r = COMPLETED \<longleftrightarrow> success r) \<and> (status r = FAILED \<longleftrightarrow> \<not> success r)
      \<and> status r \<noteq> PENDING \<and> status r \<noteq> RUNNING \<and> status r \<noteq> SKIPPED)"

definition builds_via_create_result :: "step \<Rightarrow> bool" where
  "builds_via_create_result s =
     (\<forall>ctx ctx' r. step_execute s ctx = (ctx', Inr r) \<longrightarrow>
        (\<exists>now stg succ err md arts dur. r = create_result now stg succ err md arts dur))"

definition keeps_history :: "step \<Rightarrow> bool" where
  "keeps_history s =
     (\<forall>ctx. stage_results (fst (step_execute s ctx)) = stage_results ctx
          \<and> stages (metadata (fst (step_execute s ctx))) = stages (metadata ctx))"

definition history_ok :: "PipelineContext \<Rightarrow> bool" where
  "history_ok ctx = ((\<forall>r \<in> set (stage_results ctx). result_consistent r)
                    \<and> (\<forall>r \<in> set (stages (metadata ctx)). result_consistent r))"

record file_stat =
  st_size :: nat
  st_sha256 :: string
  st_mtime :: real

fun split_on :: "char \<Rightarrow> string \<Rightarrow> string list" where
  "split_on c [] = [[]]"
| "split_on c (x # xs) =
     (case split_on c xs of
        [] \<Rightarrow> [[]]
      | p # ps \<Rightarrow> if x = c then [] # p # ps else (x # p) # ps)"

definition path_parts :: "string \<Rightarrow> string list" where
  "path_parts p = filter (\<lambda>q. q \<noteq> [] \<and> q \<noteq> ''.'') (split_on CHR ''/'' p)"

definition path_name :: "string \<Rightarrow> string" where
  "path_name p = (case path_parts p of [] \<Rightarrow> [] | q # qs \<Rightarrow> last (q # qs))"

definition fresh_context :: "string \<Rightarrow> string \<Rightarrow> string \<Rightarrow> file_stat \<Rightarrow> real \<Rightarrow> PipelineContext" where
  "fresh_context path sid temp_root st now =
     \<lparr>ctx_sample_path = path,
      ctx_session_id = sid,
      temp_dir = temp_root @ ''/'' @ sid,
      work_dir = None,
      metadata =
        \<lparr>sample_path = path, sample_name = path_name path, sample_size = st_size st,
         sha256_hash = st_sha256 st, analysis_start = now, analysis_end = None,
         total_duration = None, session_id = sid, extracted_files = [],
         file_hashes = [(''sample'',
            \<lparr>fh_path = path, fh_sha256 = st_sha256 st, fh_size = st_size st,
             fh_modified_time = Some (st_mtime st), fh_file_type = Some ''sample_zip''\<rparr>)],
         msi_info = None, dll_info = None, strings_count = 0, urls_found = [],
         cnc_url = None, download_url = None, network_status = [], stages = [],
         threat_level = ''unknown'', malware_family = ''unknown'', analysis_summary = []\<rparr>,
      stage_results = []\<rparr>"

definition PipelineContext_init ::
  "string \<Rightarrow> string \<Rightarrow> string \<Rightarrow> file_stat option \<Rightarrow> real \<Rightarrow> py_exception + PipelineContext" where
  "PipelineContext_init path sid temp_root file now =
     (case file of
        None \<Rightarrow> Inl (PyExc ''FileNotFoundError'' path)
      | Some st \<Rightarrow> Inr (fresh_context path sid temp_root st now))"


definition visit_record :: "bool \<times> step \<Rightarrow> log_record" where
  "visit_record bs = (INFO, (if fst bs then ''Executing step: '' else ''Skipping step: '') @ step_name (snd bs))"

definition failed_record :: "step \<Rightarrow> StageResult \<Rightarrow> log_record" where
  "failed_record s r = (ERROR, ''Step '' @ step_name s @ '' failed: '' @ str_opt (error_message r))"

text \<open>A step that always runs and reports a fixed outcome, for concrete pipelines.\<close>

definition const_step :: "string \<Rightarrow> PipelineStage \<Rightarrow> bool \<Rightarrow> step" where
  "const_step nm stg ok =
     \<lparr>step_name = nm,
      can_execute = (\<lambda>_. True),
      step_execute = (\<lambda>ctx. (ctx, Inr (create_result 0 stg ok
                        (if ok then None else Some ''boom'') None None None)))\<rparr>"

definition sample_stat :: file_stat where
  "sample_stat = \<lparr>st_size = 3, st_sha256 = ''ab'', st_mtime = 0\<rparr>"

definition ctx0 :: PipelineContext where
  "ctx0 = fresh_context ''s.zip'' ''session_0'' ''tmp'' sample_stat 0"



section \<open>Proofs: the stage engine\<close>

lemma create_result_consistent: "result_consistent (create_result now stg succ err md arts dur)"
  by (simp add: result_consistent_def create_result_def)

lemma create_result_status:
  "status (create_result now stg succ err md arts dur) = (if succ then COMPLETED else FAILED)"
  "success (create_result now stg succ err md arts dur) = succ"
  by (simp_all add: create_result_def)

lemma history_ok_add:
  "history_ok ctx \<Longrightarrow> result_consistent r \<Longrightarrow> history_ok (add_stage_result ctx r)"
  by (auto simp: history_ok_def add_stage_result_def)

lemma history_ok_step:
  assumes "keeps_history s" "history_ok ctx"
  shows "history_ok (fst (step_execute s ctx))"
  using assms by (simp add: history_ok_def keeps_history_def)

lemma run_steps_history_ok:
  "\<forall>s \<in> set ss. builds_via_create_result s \<and> keeps_history s \<Longrightarrow> history_ok ctx
   \<Longrightarrow> history_ok (fst (snd (run_steps ss ctx lg)))"
proof (induction ss arbitrary: ctx lg)
  case Nil
  then show ?case by simp
next
  case (Cons s ss)
  have s: "builds_via_create_result s" "keeps_history s" using Cons.prems by auto
  have rest: "\<forall>t \<in> set ss. builds_via_create_result t \<and> keeps_history t" using Cons.prems by auto
  show ?case
  proof (cases "can_execute s ctx")
    case False
    then show ?thesis using Cons.IH[OF rest Cons.prems(2)] by simp
  next
    case True
    obtain ctx1 out where ex: "step_execute s ctx = (ctx1, out)" by (cases "step_execute s ctx")
    have ok1: "history_ok ctx1" using history_ok_step[OF s(2) Cons.prems(2)] ex by simp
    show ?thesis
    proof (cases out)
      case (Inl e)
      then show ?thesis using True ex ok1 by simp
    next
      case (Inr r)
      have "result_consistent r"
        using s(1) ex Inr create_result_consistent unfolding builds_via_create_result_def by blast
      then have ok2: "history_ok (add_stage_result ctx1 r)" using ok1 history_ok_add by blast
      show ?thesis using True ex Inr ok2 Cons.IH[OF rest ok2] by (simp add: Let_def)
    qed
  qed
qed

lemma history_ok_cong:
  "stage_results c' = stage_results c \<Longrightarrow> stages (metadata c') = stages (metadata c)
   \<Longrightarrow> history_ok c \<Longrightarrow> history_ok c'"
  by (simp add: history_ok_def)

lemma assess_threat_stages: "stages (assess_threat m) = stages m"
  by (simp add: assess_threat_def)

lemma generate_summary_history:
  "stage_results (fst (generate_summary fmt1 c)) = stage_results c"
  "stages (metadata (fst (generate_summary fmt1 c))) = stages (metadata c)"
  by (simp_all add: generate_summary_def Let_def assess_threat_stages split: option.splits)

lemma mark_completed_history:
  "stage_results (mark_completed now c) = stage_results c"
  "stages (metadata (mark_completed now c)) = stages (metadata c)"
  by (simp_all add: mark_completed_def)

lemma pipeline_failed_history:
  "stage_results (fst (pipeline_failed e c lg)) = stage_results c"
  "stages (metadata (fst (pipeline_failed e c lg))) = stages (metadata c)"
  by (simp_all add: pipeline_failed_def)

lemma execute_history:
  "stage_results (fst (AnalysisPipeline_execute fmt1 now ss ctx lg))
     = stage_results (fst (snd (run_steps ss ctx (lg @ [start_record ctx]))))"
  "stages (metadata (fst (AnalysisPipeline_execute fmt1 now ss ctx lg)))
     = stages (metadata (fst (snd (run_steps ss ctx (lg @ [start_record ctx])))))"
  unfolding AnalysisPipeline_execute_def Let_def
  by (auto simp: pipeline_failed_history generate_summary_history mark_completed_history
        split: prod.splits loop_exit.splits option.splits
        dest: arg_cong[where f="\<lambda>p. stage_results (fst p)"]
              arg_cong[where f="\<lambda>p. stages (metadata (fst p))"])

lemma run_steps_append:
  "run_steps (pre @ post) ctx lg =
     (case run_steps pre ctx lg of
        (Exhausted, c, l) \<Rightarrow> run_steps post c l
      | other \<Rightarrow> other)"
proof (induction pre arbitrary: ctx lg)
  case Nil
  then show ?case by simp
next
  case (Cons s pre)
  show ?case
    by (simp add: Cons.IH Let_def split: prod.splits sum.splits loop_exit.splits)
qed

lemma run_steps_fatal:
  assumes "run_steps pre ctx lg = (Exhausted, ctx1, lg1)"
    and "can_execute s ctx1" and "step_execute s ctx1 = (ctx2, Inr r)"
    and "\<not> success r" and "stage r \<noteq> PROCESS_ISO"
  shows "run_steps (pre @ s # post) ctx lg
           = (Broke, add_stage_result ctx2 r, lg1 @ [visit_record (True, s), failed_record s r])"
  using assms by (simp add: run_steps_append Let_def visit_record_def failed_record_def)

lemma run_steps_tolerant:
  assumes "run_steps pre ctx lg = (Exhausted, ctx1, lg1)"
    and "can_execute s ctx1" and "step_execute s ctx1 = (ctx2, Inr r)"
    and "success r \<or> stage r = PROCESS_ISO"
  shows "run_steps (pre @ s # post) ctx lg
           = run_steps post (add_stage_result ctx2 r) (lg1 @ [visit_record (True, s)])"
  using assms by (auto simp add: run_steps_append Let_def visit_record_def)

lemma run_steps_visits:
  "\<exists>flags new. length flags \<le> length ss
      \<and> snd (snd (run_steps ss ctx lg)) = lg @ new
      \<and> filter (\<lambda>r. fst r = INFO) new = map visit_record (zip flags ss)"
proof (induction ss arbitrary: ctx lg)
  case Nil
  show ?case by simp
next
  case (Cons s ss)
  show ?case
  proof (cases "can_execute s ctx")
    case False
    obtain flags new where h: "length flags \<le> length ss"
      "snd (snd (run_steps ss ctx (lg @ [visit_record (False, s)]))) = (lg @ [visit_record (False, s)]) @ new"
      "filter (\<lambda>r. fst r = INFO) new = map visit_record (zip flags ss)"
      using Cons.IH by blast
    have "length (False # flags) \<le> length (s # ss)" using h(1) by simp
    moreover have "snd (snd (run_steps (s # ss) ctx lg)) = lg @ (visit_record (False, s) # new)"
      using False h(2) by (simp add: visit_record_def)
    moreover have "filter (\<lambda>r. fst r = INFO) (visit_record (False, s) # new)
                     = map visit_record (zip (False # flags) (s # ss))"
      using h(3) by (simp add: visit_record_def)
    ultimately show ?thesis by blast
  next
    case True
    obtain ctx1 out where ex: "step_execute s ctx = (ctx1, out)" by (cases "step_execute s ctx")
    show ?thesis
    proof (cases out)
      case (Inl e)
      have "length [True] \<le> length (s # ss)" by simp
      moreover have "snd (snd (run_steps (s # ss) ctx lg)) = lg @ [visit_record (True, s)]"
        using True ex Inl by (simp add: visit_record_def)
      moreover have "filter (\<lambda>r. fst r = INFO) [visit_record (True, s)]
                       = map visit_record (zip [True] (s # ss))"
        by (simp add: visit_record_def)
      ultimately show ?thesis by blast
    next
      case (Inr r)
      show ?thesis
      proof (cases "\<not> success r \<and> stage r \<noteq> PROCESS_ISO")
        case stop: True
        have "length [True] \<le> length (s # ss)" by simp
        moreover have "snd (snd (run_steps (s # ss) ctx lg))
                         = lg @ [visit_record (True, s), failed_record s r]"
          using True ex Inr stop by (simp add: visit_record_def failed_record_def Let_def)
        moreover have "filter (\<lambda>r. fst r = INFO) [visit_record (True, s), failed_record s r]
                         = map visit_record (zip [True] (s # ss))"
          by (simp add: visit_record_def failed_record_def)
        ultimately show ?thesis by blast
      next
        case go: False
        obtain flags new where h: "length flags \<le> length ss"
          "snd (snd (run_steps ss (add_stage_result ctx1 r) (lg @ [visit_record (True, s)])))
             = (lg @ [visit_record (True, s)]) @ new"
          "filter (\<lambda>r. fst r = INFO) new = map visit_record (zip flags ss)"
          using Cons.IH by blast
        have "length (True # flags) \<le> length (s # ss)" using h(1) by simp
        moreover have "snd (snd (run_steps (s # ss) ctx lg)) = lg @ (visit_record (True, s) # new)"
          using True ex Inr go h(2) by (auto simp add: visit_record_def Let_def)
        moreover have "filter (\<lambda>r. fst r = INFO) (visit_record (True, s) # new)
                         = map visit_record (zip (True # flags) (s # ss))"
          using h(3) by (simp add: visit_record_def)
        ultimately show ?thesis by blast
      qed
    qed
  qed
qed

lemma execute_after_loop:
  "run_steps ss ctx (lg @ [start_record ctx]) = run_steps ss' ctx (lg @ [start_record ctx])
   \<Longrightarrow> AnalysisPipeline_execute fmt1 now ss ctx lg = AnalysisPipeline_execute fmt1 now ss' ctx lg"
  by (simp add: AnalysisPipeline_execute_def Let_def)

text \<open>
  Claim C1. \<open>AnalysisPipeline.execute\<close> visits the steps in insertion order. When the loop
  reaches a step whose gate passes and whose \<open>execute\<close> returns a failed result of a
  stage other than \<open>process_iso\<close>, that result is appended and the loop breaks: the
  outcome is the one of the pipeline cut after that step, whatever the later steps are,
  and both histories end at the failed result. A failed \<open>process_iso\<close> result is
  appended and the loop goes on with the remaining steps. For any pipeline, the
  \<open>Executing\<close>/\<open>Skipping\<close> records the loop logs name a prefix of the step list, in
  order.
\<close>

theorem execute_order_and_fatality:
  assumes reach: "run_steps pre ctx (lg @ [start_record ctx]) = (Exhausted, ctx1, lg1)"
    and gate: "can_execute s ctx1"
    and res: "step_execute s ctx1 = (ctx2, Inr r)"
    and failed: "\<not> success r"
  shows "(stage r \<noteq> PROCESS_ISO \<longrightarrow>
            run_steps (pre @ s # post) ctx (lg @ [start_record ctx])
              = (Broke, add_stage_result ctx2 r, lg1 @ [visit_record (True, s), failed_record s r])
          \<and> AnalysisPipeline_execute fmt1 now (pre @ s # post) ctx lg
              = AnalysisPipeline_execute fmt1 now (pre @ [s]) ctx lg
          \<and> stages (metadata (fst (AnalysisPipeline_execute fmt1 now (pre @ s # post) ctx lg)))
              = stages (metadata ctx2) @ [r]
          \<and> stage_results (fst (AnalysisPipeline_execute fmt1 now (pre @ s # post) ctx lg))
              = stage_results ctx2 @ [r])
       \<and> (stage r = PROCESS_ISO \<longrightarrow>
            run_steps (pre @ s # post) ctx (lg @ [start_record ctx])
              = run_steps post (add_stage_result ctx2 r) (lg1 @ [visit_record (True, s)]))
       \<and> (\<exists>flags new. length flags \<le> length steps
            \<and> snd (snd (run_steps steps ctx (lg @ [start_record ctx]))) = (lg @ [start_record ctx]) @ new
            \<and> filter (\<lambda>x. fst x = INFO) new = map visit_record (zip flags steps))"
proof (intro conjI impI)
  assume ne: "stage r \<noteq> PROCESS_ISO"
  show a: "run_steps (pre @ s # post) ctx (lg @ [start_record ctx])
          = (Broke, add_stage_result ctx2 r, lg1 @ [visit_record (True, s), failed_record s r])"
    by (rule run_steps_fatal[OF reach gate res failed ne])
  have b: "run_steps (pre @ [s]) ctx (lg @ [start_record ctx])
          = (Broke, add_stage_result ctx2 r, lg1 @ [visit_record (True, s), failed_record s r])"
    by (rule run_steps_fatal[OF reach gate res failed ne])
  show "AnalysisPipeline_execute fmt1 now (pre @ s # post) ctx lg
          = AnalysisPipeline_execute fmt1 now (pre @ [s]) ctx lg"
    by (rule execute_after_loop) (simp only: a b)
  show "stages (metadata (fst (AnalysisPipeline_execute fmt1 now (pre @ s # post) ctx lg)))
          = stages (metadata ctx2) @ [r]"
    by (simp add: execute_history(2) a add_stage_result_def)
  show "stage_results (fst (AnalysisPipeline_execute fmt1 now (pre @ s # post) ctx lg))
          = stage_results ctx2 @ [r]"
    by (simp add: execute_history(1) a add_stage_result_def)
next
  assume "stage r = PROCESS_ISO"
  then show "run_steps (pre @ s # post) ctx (lg @ [start_record ctx])
          = run_steps post (add_stage_result ctx2 r) (lg1 @ [visit_record (True, s)])"
    using run_steps_tolerant[OF reach gate res] by simp
next
  show "\<exists>flags new. length flags \<le> length steps
            \<and> snd (snd (run_steps steps ctx (lg @ [start_record ctx]))) = (lg @ [start_record ctx]) @ new
            \<and> filter (\<lambda>x. fst x = INFO) new = map visit_record (zip flags steps)"
    by (rule run_steps_visits)
qed


lemma const_step_sel:
  "step_name (const_step nm stg ok) = nm"
  "can_execute (const_step nm stg ok) c"
  "step_execute (const_step nm stg ok) c
     = (c, Inr (create_result 0 stg ok (if ok then None else Some ''boom'') None None None))"
  by (simp_all add: const_step_def)

lemma run_A:
  "run_steps [const_step ''A'' INITIALIZE True] ctx0 ([] @ [start_record ctx0])
     = (Exhausted, add_stage_result ctx0 (create_result 0 INITIALIZE True None None None None),
        [start_record ctx0, visit_record (True, const_step ''A'' INITIALIZE True)])"
  by (simp add: const_step_sel create_result_status visit_record_def Let_def)

theorem execute_order_and_fatality_witness:
  "stages (metadata (fst (AnalysisPipeline_execute (\<lambda>_. ''0.0'') 1
       ([const_step ''A'' INITIALIZE True] @ const_step ''B'' EXTRACT_ZIP False # [const_step ''C'' FINALIZE True]) ctx0 [])))
     = [create_result 0 INITIALIZE True None None None None,
        create_result 0 EXTRACT_ZIP False (Some ''boom'') None None None]
   \<and> run_steps ([const_step ''A'' INITIALIZE True] @ const_step ''I'' PROCESS_ISO False # [const_step ''C'' FINALIZE True])
        ctx0 ([] @ [start_record ctx0])
     = run_steps [const_step ''C'' FINALIZE True]
         (add_stage_result (add_stage_result ctx0 (create_result 0 INITIALIZE True None None None None))
            (create_result 0 PROCESS_ISO False (Some ''boom'') None None None))
         ([start_record ctx0, visit_record (True, const_step ''A'' INITIALIZE True)]
            @ [visit_record (True, const_step ''I'' PROCESS_ISO False)])"
proof -
  have f1: "\<not> success (create_result 0 EXTRACT_ZIP False (Some ''boom'') None None None)"
    by (simp add: create_result_status)
  have f2: "\<not> success (create_result 0 PROCESS_ISO False (Some ''boom'') None None None)"
    by (simp add: create_result_status)
  have s1: "stage (create_result 0 EXTRACT_ZIP False (Some ''boom'') None None None) \<noteq> PROCESS_ISO"
    by (simp add: create_result_def)
  have s2: "stage (create_result 0 PROCESS_ISO False (Some ''boom'') None None None) = PROCESS_ISO"
    by (simp add: create_result_def)
  have e1: "step_execute (const_step ''B'' EXTRACT_ZIP False)
              (add_stage_result ctx0 (create_result 0 INITIALIZE True None None None None))
            = (add_stage_result ctx0 (create_result 0 INITIALIZE True None None None None),
               Inr (create_result 0 EXTRACT_ZIP False (Some ''boom'') None None None))"
    by (simp add: const_step_sel)
  have e2: "step_execute (const_step ''I'' PROCESS_ISO False)
              (add_stage_result ctx0 (create_result 0 INITIALIZE True None None None None))
            = (add_stage_result ctx0 (create_result 0 INITIALIZE True None None None None),
               Inr (create_result 0 PROCESS_ISO False (Some ''boom'') None None None))"
    by (simp add: const_step_sel)
  have st: "stages (metadata (add_stage_result ctx0 (create_result 0 INITIALIZE True None None None None)))
              = [create_result 0 INITIALIZE True None None None None]"
    by (simp add: add_stage_result_def ctx0_def fresh_context_def)
  have c1: "stages (metadata (fst (AnalysisPipeline_execute (\<lambda>_. ''0.0'') 1
       ([const_step ''A'' INITIALIZE True] @ const_step ''B'' EXTRACT_ZIP False # [const_step ''C'' FINALIZE True]) ctx0 [])))
     = stages (metadata (add_stage_result ctx0 (create_result 0 INITIALIZE True None None None None)))
        @ [create_result 0 EXTRACT_ZIP False (Some ''boom'') None None None]"
    using execute_order_and_fatality[OF run_A const_step_sel(2) e1 f1,
            of "[const_step ''C'' FINALIZE True]" "\<lambda>_. ''0.0''" 1 "[]"] s1
    by blast
  have c2: "run_steps ([const_step ''A'' INITIALIZE True] @ const_step ''I'' PROCESS_ISO False # [const_step ''C'' FINALIZE True])
        ctx0 ([] @ [start_record ctx0])
     = run_steps [const_step ''C'' FINALIZE True]
         (add_stage_result (add_stage_result ctx0 (create_result 0 INITIALIZE True None None None None))
            (create_result 0 PROCESS_ISO False (Some ''boom'') None None None))
         ([start_record ctx0, visit_record (True, const_step ''A'' INITIALIZE True)]
            @ [visit_record (True, const_step ''I'' PROCESS_ISO False)])"
    using execute_order_and_fatality[OF run_A const_step_sel(2) e2 f2,
            of "[const_step ''C'' FINALIZE True]" "\<lambda>_. ''0.0''" 1 "[]"] s2
    by blast
  have c1': "stages (metadata (fst (AnalysisPipeline_execute (\<lambda>_. ''0.0'') 1
       ([const_step ''A'' INITIALIZE True] @ const_step ''B'' EXTRACT_ZIP False # [const_step ''C'' FINALIZE True]) ctx0 [])))
     = [create_result 0 INITIALIZE True None None None None,
        create_result 0 EXTRACT_ZIP False (Some ''boom'') None None None]"
    using c1 by (simp add: st)
  show ?thesis
    using c1' c2 by (rule conjI)
qed

text \<open>
  Claim C10. \<open>create_result\<close> sets the status to \<open>COMPLETED\<close> when the success flag is
  true and to \<open>FAILED\<close> otherwise. In a run from a fresh context whose steps build their
  results through \<open>create_result\<close> and leave the recorded history alone (as every
  concrete step of pipeline_steps.py does), every recorded result is completed exactly
  when it succeeded and failed exactly when it did not, and is never pending, running or
  skipped.
\<close>

theorem recorded_status_matches_success:
  assumes "\<forall>s \<in> set steps. builds_via_create_result s \<and> keeps_history s"
  shows "(\<forall>r \<in> set (stages (metadata (fst (AnalysisPipeline_execute fmt1 now steps
                 (fresh_context path sid temp_root st t0) lg)))).
            (status r = COMPLETED \<longleftrightarrow> success r) \<and> (status r = FAILED \<longleftrightarrow> \<not> success r)
            \<and> status r \<noteq> PENDING \<and> status r \<noteq> RUNNING \<and> status r \<noteq> SKIPPED)
       \<and> (\<forall>r \<in> set (stage_results (fst (AnalysisPipeline_execute fmt1 now steps
                 (fresh_context path sid temp_root st t0) lg))).
            (status r = COMPLETED \<longleftrightarrow> success r) \<and> (status r = FAILED \<longleftrightarrow> \<not> success r)
            \<and> status r \<noteq> PENDING \<and> status r \<noteq> RUNNING \<and> status r \<noteq> SKIPPED)
       \<and> status (create_result t stg succ err md arts dur) = (if succ then COMPLETED else FAILED)
       \<and> success (create_result t stg succ err md arts dur) = succ"
proof -
  have "history_ok (fresh_context path sid temp_root st t0)"
    by (simp add: history_ok_def fresh_context_def)
  from run_steps_history_ok[OF assms this]
  have "history_ok (fst (snd (run_steps steps (fresh_context path sid temp_root st t0)
          (lg @ [start_record (fresh_context path sid temp_root st t0)]))))" .
  then have "history_ok (fst (AnalysisPipeline_execute fmt1 now steps (fresh_context path sid temp_root st t0) lg))"
    by (simp add: history_ok_def execute_history)
  then show ?thesis
    by (simp add: history_ok_def result_consistent_def create_result_status)
qed

lemma const_step_wellbehaved: "builds_via_create_result (const_step nm stg ok) \<and> keeps_history (const_step nm stg ok)"
  unfolding builds_via_create_result_def keeps_history_def
  by (simp add: const_step_sel) blast

theorem recorded_status_matches_success_witness:
  "builds_via_create_result (const_step ''A'' INITIALIZE True)
   \<and> keeps_history (const_step ''A'' INITIALIZE True)
   \<and> builds_via_create_result (const_step ''B'' EXTRACT_ZIP False)
   \<and> keeps_history (const_step ''B'' EXTRACT_ZIP False)
   \<and> map success (stages (metadata (fst (AnalysisPipeline_execute (\<lambda>_. ''0.0'') 1
          [const_step ''A'' INITIALIZE True, const_step ''B'' EXTRACT_ZIP False] ctx0 []))))
       = [True, False]
   \<and> list_all (\<lambda>r. (status r = COMPLETED) = success r \<and> (status r = FAILED) = (\<not> success r)
                     \<and> status r \<noteq> PENDING \<and> status r \<noteq> RUNNING \<and> status r \<noteq> SKIPPED)
        (stages (metadata (fst (AnalysisPipeline_execute (\<lambda>_. ''0.0'') 1
          [const_step ''A'' INITIALIZE True, const_step ''B'' EXTRACT_ZIP False] ctx0 []))))"
proof -
  have h: "\<forall>s \<in> set [const_step ''A'' INITIALIZE True, const_step ''B'' EXTRACT_ZIP False].
       builds_via_create_result s \<and> keeps_history s"
    using const_step_wellbehaved by simp
  have run: "map success (stages (metadata (fst (AnalysisPipeline_execute (\<lambda>_. ''0.0'') 1
          [const_step ''A'' INITIALIZE True, const_step ''B'' EXTRACT_ZIP False] ctx0 []))))
       = [True, False]"
    by (simp add: execute_history(2) const_step_sel create_result_status Let_def add_stage_result_def
         ctx0_def fresh_context_def create_result_def)
  show ?thesis
    using const_step_wellbehaved run
      recorded_status_matches_success[OF h, of "\<lambda>_. ''0.0''" 1 "''s.zip''" "''session_0''" "''tmp''" sample_stat 0 "[]"]
    by (simp add: ctx0_def list_all_iff)
qed

section \<open>Proofs: threat classification\<close>

lemma assess_threat_level:
  "threat_level (assess_threat m) =
     (if truthy_dict (dll_info m) \<and> urls_found m \<noteq> [] then ''high''
      else if urls_found m \<noteq> [] then ''medium'' else ''low'')"
  "malware_family (assess_threat m) =
     (if truthy_dict (dll_info m) \<and> urls_found m \<noteq> [] then ''Grandoreiro''
      else if urls_found m \<noteq> [] then ''Suspicious'' else ''Unknown'')"
  by (simp_all add: assess_threat_def)

lemma generate_summary_level:
  "threat_level (metadata (fst (generate_summary fmt1 ctx))) = threat_level (assess_threat (metadata ctx))"
  "malware_family (metadata (fst (generate_summary fmt1 ctx))) = malware_family (assess_threat (metadata ctx))"
  by (simp_all add: generate_summary_def Let_def split: option.splits)

lemma mark_completed_inputs:
  "dll_info (metadata (mark_completed now c)) = dll_info (metadata c)"
  "urls_found (metadata (mark_completed now c)) = urls_found (metadata c)"
  by (simp_all add: mark_completed_def)

lemma pipeline_failed_level:
  "threat_level (metadata (fst (pipeline_failed e c lg))) = threat_level (metadata c)"
  "malware_family (metadata (fst (pipeline_failed e c lg))) = malware_family (metadata c)"
  by (simp_all add: pipeline_failed_def)

text \<open>
  Claim C4. \<open>_generate_summary\<close> sets the threat level and the family as a function of
  the accumulated metadata: high/Grandoreiro when \<open>dll_info\<close> is set (Python truthiness:
  a dictionary that is not \<open>None\<close> and not empty; the only writer, \<open>ExtractDllStep\<close>,
  stores five keys) and at least one URL was found, medium/Suspicious when only URLs were
  found, low/Unknown otherwise. In a run whose loop did not raise, the returned metadata
  carries this classification of the metadata the steps accumulated; when a step raised,
  the summary generator is not reached and the level is left as it was.
\<close>

theorem summary_threat_level:
  "threat_level (metadata (fst (generate_summary fmt1 ctx))) =
     (if truthy_dict (dll_info (metadata ctx)) \<and> urls_found (metadata ctx) \<noteq> [] then ''high''
      else if urls_found (metadata ctx) \<noteq> [] then ''medium'' else ''low'')
   \<and> malware_family (metadata (fst (generate_summary fmt1 ctx))) =
     (if truthy_dict (dll_info (metadata ctx)) \<and> urls_found (metadata ctx) \<noteq> [] then ''Grandoreiro''
      else if urls_found (metadata ctx) \<noteq> [] then ''Suspicious'' else ''Unknown'')
   \<and> (case run_steps steps ctx (lg @ [start_record ctx]) of
         (Raised e, c1, l1) \<Rightarrow>
            threat_level (metadata (fst (AnalysisPipeline_execute fmt1 now steps ctx lg)))
              = threat_level (metadata c1)
       | (_, c1, l1) \<Rightarrow>
            threat_level (metadata (fst (AnalysisPipeline_execute fmt1 now steps ctx lg))) =
              (if truthy_dict (dll_info (metadata c1)) \<and> urls_found (metadata c1) \<noteq> [] then ''high''
               else if urls_found (metadata c1) \<noteq> [] then ''medium'' else ''low'')
            \<and> malware_family (metadata (fst (AnalysisPipeline_execute fmt1 now steps ctx lg))) =
              (if truthy_dict (dll_info (metadata c1)) \<and> urls_found (metadata c1) \<noteq> [] then ''Grandoreiro''
               else if urls_found (metadata c1) \<noteq> [] then ''Suspicious'' else ''Unknown''))"
proof (intro conjI)
  show "threat_level (metadata (fst (generate_summary fmt1 ctx))) =
     (if truthy_dict (dll_info (metadata ctx)) \<and> urls_found (metadata ctx) \<noteq> [] then ''high''
      else if urls_found (metadata ctx) \<noteq> [] then ''medium'' else ''low'')"
    by (simp only: generate_summary_level assess_threat_level)
  show "malware_family (metadata (fst (generate_summary fmt1 ctx))) =
     (if truthy_dict (dll_info (metadata ctx)) \<and> urls_found (metadata ctx) \<noteq> [] then ''Grandoreiro''
      else if urls_found (metadata ctx) \<noteq> [] then ''Suspicious'' else ''Unknown'')"
    by (simp only: generate_summary_level assess_threat_level)
  obtain ex c1 l1 where r: "run_steps steps ctx (lg @ [start_record ctx]) = (ex, c1, l1)"
    by (cases "run_steps steps ctx (lg @ [start_record ctx])")
  obtain a b where gs: "generate_summary fmt1 (mark_completed now c1) = (a, b)"
    by (cases "generate_summary fmt1 (mark_completed now c1)")
  have ga: "threat_level (metadata a) = threat_level (assess_threat (metadata (mark_completed now c1)))"
       "malware_family (metadata a) = malware_family (assess_threat (metadata (mark_completed now c1)))"
    using generate_summary_level[of fmt1 "mark_completed now c1"] gs by simp_all
  have fin: "ex = Exhausted \<or> ex = Broke \<Longrightarrow>
       threat_level (metadata (fst (AnalysisPipeline_execute fmt1 now steps ctx lg)))
         = threat_level (assess_threat (metadata (mark_completed now c1)))
     \<and> malware_family (metadata (fst (AnalysisPipeline_execute fmt1 now steps ctx lg)))
         = malware_family (assess_threat (metadata (mark_completed now c1)))"
    unfolding AnalysisPipeline_execute_def Let_def r
    by (cases b) (auto simp: gs ga pipeline_failed_level)
  show "case run_steps steps ctx (lg @ [start_record ctx]) of
         (Raised e, c1, l1) \<Rightarrow>
            threat_level (metadata (fst (AnalysisPipeline_execute fmt1 now steps ctx lg)))
              = threat_level (metadata c1)
       | (_, c1, l1) \<Rightarrow>
            threat_level (metadata (fst (AnalysisPipeline_execute fmt1 now steps ctx lg))) =
              (if truthy_dict (dll_info (metadata c1)) \<and> urls_found (metadata c1) \<noteq> [] then ''high''
               else if urls_found (metadata c1) \<noteq> [] then ''medium'' else ''low'')
            \<and> malware_family (metadata (fst (AnalysisPipeline_execute fmt1 now steps ctx lg))) =
              (if truthy_dict (dll_info (metadata c1)) \<and> urls_found (metadata c1) \<noteq> [] then ''Grandoreiro''
               else if urls_found (metadata c1) \<noteq> [] then ''Suspicious'' else ''Unknown'')"
  proof (cases ex)
    case (Raised e)
    then show ?thesis
      unfolding r by (simp add: AnalysisPipeline_execute_def Let_def r pipeline_failed_level)
  next
    case Exhausted
    then show ?thesis
      unfolding r using fin by (simp add: assess_threat_level mark_completed_inputs)
  next
    case Broke
    then show ?thesis
      unfolding r using fin by (simp add: assess_threat_level mark_completed_inputs)
  qed
qed

section \<open>URL lookups and the cache path (analyzer.py, core.py)\<close>

text \<open>
  The URLs the analyzer handles are ASCII text, drawn from the scanner's alphabet;
  on it \<open>str.lower\<close> maps \<open>A\<close>-\<open>Z\<close> to \<open>a\<close>-\<open>z\<close>.
\<close>

definition ascii_uppercase :: string where
  "ascii_uppercase = ''ABCDEFGHIJKLMNOPQRSTUVWXYZ''"

definition ascii_lowercase :: string where
  "ascii_lowercase = ''abcdefghijklmnopqrstuvwxyz''"

definition digits :: string where
  "digits = ''0123456789''"

definition char_lower :: "char \<Rightarrow> char" where
  "char_lower c = (case map_of (zip ascii_uppercase ascii_lowercase) c of None \<Rightarrow> c | Some l \<Rightarrow> l)"

definition str_lower :: "string \<Rightarrow> string" where
  "str_lower s = map char_lower s"

text \<open>
  \<open>URLAnalyzer.find_cnc_url\<close> and \<open>find_download_url\<close> (analyzer.py). The argument is the
  set of URLs in the order the \<open>for\<close> loop iterates it, which Python leaves unspecified;
  \<open>sublist\<close> is the substring test \<open>in\<close>.
\<close>

definition find_cnc_url :: "string list \<Rightarrow> string option" where
  "find_cnc_url urls = find (\<lambda>url. sublist ''5050/index.php'' url) urls"

definition find_download_url :: "string list \<Rightarrow> string \<Rightarrow> string option" where
  "find_download_url urls pattern =
     find (\<lambda>url. sublist (str_lower pattern) (str_lower url)) urls"

definition joinpath :: "string \<Rightarrow> string \<Rightarrow> string" where
  "joinpath d n = d @ ''/'' @ n"

text \<open>
  \<open>get_cache_path\<close> (core.py) takes any Python string, a list of Unicode code points.
  \<open>re.sub\<close> replaces by an underscore every character outside the class of word
  characters, hyphen, underscore and dot; the name is cut to 100 characters and joined to
  the cache directory. The word characters of a string pattern are the underscore and
  every alphanumeric character: the ASCII letters and digits, and above code point 127
  what the Unicode database classifies so, taken as the parameter \<open>isalnum\<close>.
\<close>

type_synonym unicode = "nat list"

definition is_word_char :: "(nat \<Rightarrow> bool) \<Rightarrow> nat \<Rightarrow> bool" where
  "is_word_char isalnum cp =
     (cp \<in> set (map of_char (ascii_lowercase @ ascii_uppercase @ digits @ ''_''))
      \<or> (128 \<le> cp \<and> isalnum cp))"

definition safe_char :: "(nat \<Rightarrow> bool) \<Rightarrow> nat \<Rightarrow> nat" where
  "safe_char isalnum cp =
     (if is_word_char isalnum cp \<or> cp = of_char CHR ''-'' \<or> cp = of_char CHR ''_''
         \<or> cp = of_char CHR ''.''
      then cp else of_char CHR ''_'')"

definition joinpath_unicode :: "unicode \<Rightarrow> unicode \<Rightarrow> unicode" where
  "joinpath_unicode d n = d @ [of_char CHR ''/''] @ n"

definition get_cache_path :: "(nat \<Rightarrow> bool) \<Rightarrow> unicode \<Rightarrow> unicode \<Rightarrow> unicode" where
  "get_cache_path isalnum cache_dir url =
     (let safe_name = map (safe_char isalnum) url;
          safe_name = (if length safe_name > 100 then take 100 safe_name else safe_name)
      in joinpath_unicode cache_dir safe_name)"

text \<open>The file name as the specification words it: every non-word character replaced.\<close>

definition spec_cache_name :: "(nat \<Rightarrow> bool) \<Rightarrow> unicode \<Rightarrow> unicode" where
  "spec_cache_name isalnum url =
     take 100 (map (\<lambda>cp. if is_word_char isalnum cp then cp else of_char CHR ''_'') url)"

text \<open>The code points of ASCII text, and a database in which only U+00E9 is a letter.\<close>

definition unicode_of :: "string \<Rightarrow> unicode" where
  "unicode_of s = map of_char s"

definition only_e_acute :: "nat \<Rightarrow> bool" where
  "only_e_acute cp = (cp = 233)"

lemma find_some_iff:
  "(\<exists>x \<in> set xs. P x) \<Longrightarrow> \<exists>x. find P xs = Some x \<and> x \<in> set xs \<and> P x"
  by (induction xs) auto

lemma find_none: "\<not> (\<exists>x \<in> set xs. P x) \<Longrightarrow> find P xs = None"
  by (simp add: find_None_iff)

text \<open>
  Claim C5. For URLs in any iteration order, \<open>find_cnc_url\<close> returns a member containing
  \<open>5050/index.php\<close> when some member contains it and \<open>None\<close> otherwise, and
  \<open>find_download_url\<close> returns a member containing the pattern, compared in lower case,
  when some member does and \<open>None\<close> otherwise. Neither has a failing branch.
\<close>

theorem url_lookups_total:
  "((\<exists>u \<in> set urls. sublist ''5050/index.php'' u) \<longrightarrow>
      (\<exists>u. find_cnc_url urls = Some u \<and> u \<in> set urls \<and> sublist ''5050/index.php'' u))
   \<and> (\<not> (\<exists>u \<in> set urls. sublist ''5050/index.php'' u) \<longrightarrow> find_cnc_url urls = None)
   \<and> ((\<exists>u \<in> set urls. sublist (str_lower pattern) (str_lower u)) \<longrightarrow>
      (\<exists>u. find_download_url urls pattern = Some u \<and> u \<in> set urls
           \<and> sublist (str_lower pattern) (str_lower u)))
   \<and> (\<not> (\<exists>u \<in> set urls. sublist (str_lower pattern) (str_lower u)) \<longrightarrow>
      find_download_url urls pattern = None)"
  unfolding find_cnc_url_def find_download_url_def
  using find_some_iff[of urls "\<lambda>url. sublist ''5050/index.php'' url"]
        find_none[of urls "\<lambda>url. sublist ''5050/index.php'' url"]
        find_some_iff[of urls "\<lambda>url. sublist (str_lower pattern) (str_lower url)"]
        find_none[of urls "\<lambda>url. sublist (str_lower pattern) (str_lower url)"]
  by blast

lemma find_cnc_url_example: "find_cnc_url [''https://normal.com/page'', ''http://evil.com/5050/index.php'', ''http://x.com/a''] = Some ''http://evil.com/5050/index.php''"
  by (simp add: find_cnc_url_def sublist_code)

lemma find_download_url_example: "find_download_url [''https://normal.com/page'', ''http://x.com/payload.ISO''] ''iso'' = Some ''http://x.com/payload.ISO''"
  by (simp add: find_download_url_def sublist_code str_lower_def char_lower_def ascii_uppercase_def ascii_lowercase_def)

theorem url_lookups_total_witness:
  "find_cnc_url [''https://normal.com/page'', ''http://evil.com/5050/index.php'', ''http://x.com/a'']
     = Some ''http://evil.com/5050/index.php''
   \<and> find_cnc_url [''https://normal.com/page'', ''http://x.com/a''] = None
   \<and> find_download_url [''https://normal.com/page'', ''http://x.com/payload.ISO''] ''iso''
     = Some ''http://x.com/payload.ISO''
   \<and> find_download_url [''https://normal.com/page''] ''iso'' = None"
proof -
  have a: "\<not> (\<exists>u \<in> set [''https://normal.com/page'', ''http://x.com/a'']. sublist ''5050/index.php'' u)"
    by (simp add: sublist_code)
  have b: "\<not> (\<exists>u \<in> set [''https://normal.com/page''].
              sublist (str_lower ''iso'') (str_lower u))"
    by (simp add: sublist_code str_lower_def char_lower_def ascii_uppercase_def ascii_lowercase_def)
  have c: "find_cnc_url [''https://normal.com/page'', ''http://x.com/a''] = None"
    using url_lookups_total[of "[''https://normal.com/page'', ''http://x.com/a'']" "''iso''"] a
    by blast
  have d: "find_download_url [''https://normal.com/page''] ''iso'' = None"
    using url_lookups_total[of "[''https://normal.com/page'']" "''iso''"] b
    by blast
  show ?thesis using c d find_cnc_url_example find_download_url_example by simp
qed

lemma is_word_char_simps:
  "is_word_char isalnum cp =
     (cp \<in> set (map of_char ''abcdefghijklmnopqrstuvwxyzABCDEFGHIJKLMNOPQRSTUVWXYZ0123456789_'')
      \<or> (128 \<le> cp \<and> isalnum cp))"
  by (simp only: is_word_char_def ascii_uppercase_def ascii_lowercase_def digits_def append.simps)

text \<open>
  Claim C8, as stated, fails: the hyphen and the dot are not word characters, and the code
  keeps them.
\<close>

theorem cache_path_counterexample:
  "get_cache_path only_e_acute (unicode_of ''cache'') (unicode_of ''http://a.com/x-y.iso'')
     = unicode_of ''cache/http___a.com_x-y.iso''
   \<and> joinpath_unicode (unicode_of ''cache'') (spec_cache_name only_e_acute (unicode_of ''http://a.com/x-y.iso''))
     = unicode_of ''cache/http___a_com_x_y_iso''
   \<and> get_cache_path only_e_acute (unicode_of ''cache'') (unicode_of ''http://a.com/x-y.iso'')
       \<noteq> joinpath_unicode (unicode_of ''cache'')
           (spec_cache_name only_e_acute (unicode_of ''http://a.com/x-y.iso''))"
  by (simp add: get_cache_path_def spec_cache_name_def joinpath_unicode_def safe_char_def
        is_word_char_simps only_e_acute_def unicode_of_def Let_def)

text \<open>A letter outside ASCII is a word character and is kept; the euro sign is replaced.\<close>

lemma cache_path_keeps_letters:
  "get_cache_path only_e_acute (unicode_of ''c'') (unicode_of ''caf'' @ [233, 8364])
     = unicode_of ''c/caf'' @ [233, 95]"
  by (simp add: get_cache_path_def joinpath_unicode_def safe_char_def
        is_word_char_simps only_e_acute_def unicode_of_def Let_def)

text \<open>
  Claim C8, amended. The cache path is a function of the URL: the cache directory joined
  with the URL in which every character that is not a word character, a hyphen or a dot
  is replaced by an underscore, cut to at most 100 characters.
\<close>

theorem cache_path_sanitized:
  "get_cache_path isalnum cache_dir url
     = joinpath_unicode cache_dir (take 100 (map (safe_char isalnum) url))
   \<and> length (take 100 (map (safe_char isalnum) url)) = min 100 (length url)
   \<and> list_all (\<lambda>c. is_word_char isalnum c \<or> c = of_char CHR ''-'' \<or> c = of_char CHR ''.'')
         (take 100 (map (safe_char isalnum) url))
   \<and> list_all2 (\<lambda>c d. d = (if is_word_char isalnum c \<or> c = of_char CHR ''-'' \<or> c = of_char CHR ''.''
                             then c else of_char CHR ''_''))
         (take 100 url) (take 100 (map (safe_char isalnum) url))"
proof (intro conjI)
  show "get_cache_path isalnum cache_dir url
          = joinpath_unicode cache_dir (take 100 (map (safe_char isalnum) url))"
    by (simp add: get_cache_path_def Let_def)
  show "length (take 100 (map (safe_char isalnum) url)) = min 100 (length url)"
    by (simp add: min.commute)
  have w: "is_word_char isalnum (of_char CHR ''_'')" by (simp add: is_word_char_simps)
  have k: "is_word_char isalnum (safe_char isalnum c) \<or> safe_char isalnum c = of_char CHR ''-''
             \<or> safe_char isalnum c = of_char CHR ''.''" for c
    using w unfolding safe_char_def by (cases "is_word_char isalnum c") auto
  then have "list_all (\<lambda>c. is_word_char isalnum c \<or> c = of_char CHR ''-'' \<or> c = of_char CHR ''.'')
               (map (safe_char isalnum) url)"
    by (simp add: list_all_iff)
  then show "list_all (\<lambda>c. is_word_char isalnum c \<or> c = of_char CHR ''-'' \<or> c = of_char CHR ''.'')
               (take 100 (map (safe_char isalnum) url))"
    unfolding list_all_iff using in_set_takeD by fast
  have "safe_char isalnum c
          = (if is_word_char isalnum c \<or> c = of_char CHR ''-'' \<or> c = of_char CHR ''.''
             then c else of_char CHR ''_'')" for c
    using w unfolding safe_char_def by auto
  then show "list_all2 (\<lambda>c d. d = (if is_word_char isalnum c \<or> c = of_char CHR ''-'' \<or> c = of_char CHR ''.''
                             then c else of_char CHR ''_''))
         (take 100 url) (take 100 (map (safe_char isalnum) url))"
    by (simp add: list_all2_conv_all_nth take_map)
qed

section \<open>Session cleanup (core.py)\<close>

text \<open>
  \<open>cleanup_session_temp_dir\<close> (core.py). The session directory is modelled by what the
  function looks at: whether it exists, the text of \<open>session_manifest.txt\<close> when there is
  one, the paths \<open>rglob("*.debug")\<close> finds, and the other files. The operations that can
  fail take their outcome from \<open>faults\<close>: appending to the manifest, the search for
  markers, and \<open>shutil.rmtree\<close>, which on failure leaves some of the directory behind.
\<close>

record session_fs =
  dir_exists :: bool
  manifest :: "string option"
  debug_files :: "string list"
  other_files :: "string list"

record faults =
  append_fault :: "py_exception option"
  rglob_fault :: "py_exception option"
  rmtree_fault :: "(py_exception \<times> session_fs) option"


definition removed :: session_fs where
  "removed = \<lparr>dir_exists = False, manifest = None, debug_files = [], other_files = []\<rparr>"

fun join_comma :: "string list \<Rightarrow> string" where
  "join_comma [] = []"
| "join_comma [x] = x"
| "join_comma (x # y # ys) = x @ '', '' @ join_comma (y # ys)"

definition repr_list :: "string list \<Rightarrow> string" where
  "repr_list xs = ''['' @ join_comma (map (\<lambda>x. [CHR 0x27] @ x @ [CHR 0x27]) xs) @ '']''"

text \<open>The body of the \<open>try\<close>: \<open>Inl\<close> is an exception on its way to the handler.\<close>

definition cleanup_body ::
  "faults \<Rightarrow> string \<Rightarrow> string \<Rightarrow> string \<Rightarrow> bool \<Rightarrow> session_fs
     \<Rightarrow> (py_exception \<times> session_fs) + (session_fs \<times> log_record list)" where
  "cleanup_body flt now tdir sid force fs =
     (case (case manifest fs of
              None \<Rightarrow> Inr fs
            | Some text \<Rightarrow>
                (case append_fault flt of
                   Some e \<Rightarrow> Inl (e, fs)
                 | None \<Rightarrow> Inr (fs\<lparr>manifest := Some (text @ [CHR 0x0A] @ ''Cleaned up: '' @ now @ [CHR 0x0A])\<rparr>))) of
        Inl x \<Rightarrow> Inl x
      | Inr fs1 \<Rightarrow>
          (case (if \<not> force
                 then (case rglob_fault flt of
                         Some e \<Rightarrow> Inl (e, fs1)
                       | None \<Rightarrow> Inr (debug_files fs1 \<noteq> []))
                 else Inr False) of
             Inl x \<Rightarrow> Inl x
           | Inr True \<Rightarrow>
               Inr (fs1, [(INFO, ''Skipping cleanup of session '' @ sid @ '' due to debug files: ''
                                 @ repr_list (debug_files fs1))])
           | Inr False \<Rightarrow>
               (case rmtree_fault flt of
                  Some (e, left) \<Rightarrow> Inl (e, left\<lparr>dir_exists := True\<rparr>)
                | None \<Rightarrow> Inr (removed, [(INFO, ''Cleaned up temporary directory: '' @ tdir)]))))"

text \<open>
  The function: nothing happens when the directory does not exist; an exception of the
  body is logged as a warning. \<open>Inl\<close> would be an exception reaching the caller.
\<close>

definition cleanup_session_temp_dir ::
  "faults \<Rightarrow> string \<Rightarrow> string \<Rightarrow> string \<Rightarrow> bool \<Rightarrow> session_fs
     \<Rightarrow> py_exception + (session_fs \<times> log_record list)" where
  "cleanup_session_temp_dir flt now temp_root sid force fs =
     (let tdir = joinpath temp_root sid in
      if dir_exists fs then
        (case cleanup_body flt now tdir sid force fs of
           Inl (e, fs') \<Rightarrow>
             Inr (fs', [(WARNING, ''Could not cleanup temp directory '' @ tdir @ '': '' @ exc_msg e)])
         | Inr r \<Rightarrow> Inr r)
      else Inr (fs, []))"




lemma cleanup_never_raises:
  "\<exists>fs' lg. cleanup_session_temp_dir flt now temp_root sid force fs = Inr (fs', lg)"
  by (auto simp: cleanup_session_temp_dir_def Let_def split: sum.splits prod.splits)




section \<open>Downloading the secondary payload (iso_handler.py)\<close>

text \<open>
  \<open>ISODownloader.download_iso\<close> (iso_handler.py). Bytes are \<open>char\<close>s; the text of a
  response is a list of Unicode code points. A \<open>requests\<close> response carries the body
  (\<open>response.content\<close>) and its decoding (\<open>response.text\<close>); the model takes both from the response.
\<close>

type_synonym bytes = "char list"


type_synonym files = "string \<Rightarrow> bytes option"
















section \<open>The string scanner (analyzer.py)\<close>

text \<open>
  \<open>StringExtractor\<close> (analyzer.py). The character class of both patterns: letters,
  digits, and the punctuation \<open>+ / = - : . , _ $ % ' ( ) [ ] < >\<close> and the space.
\<close>

definition in_alphabet :: "char \<Rightarrow> bool" where
  "in_alphabet c =
     (c \<in> set (ascii_uppercase @ ascii_lowercase @ digits @ ''+/=-:. ,_$%()[]<>'' @ [CHR 0x27]))"

text \<open>
  \<open>findall\<close> of the pattern \<open>[class]{n,}\<close>: the maximal runs of characters of the class
  that are at least \<open>n\<close> long, from left to right. \<open>cur\<close> is the run being read,
  reversed. For \<open>n = 0\<close> the pattern also matches empty strings, which the caller drops;
  they are left out here.
\<close>

definition emit :: "nat \<Rightarrow> 'a list \<Rightarrow> 'a list list" where
  "emit n cur = (if cur \<noteq> [] \<and> n \<le> length cur then [rev cur] else [])"

fun scan_runs :: "('a \<Rightarrow> bool) \<Rightarrow> nat \<Rightarrow> 'a list \<Rightarrow> 'a list \<Rightarrow> 'a list list" where
  "scan_runs P n cur [] = emit n cur"
| "scan_runs P n cur (x # xs) =
     (if P x then scan_runs P n (x # cur) xs else emit n cur @ scan_runs P n [] xs)"

definition findall_runs :: "('a \<Rightarrow> bool) \<Rightarrow> nat \<Rightarrow> 'a list \<Rightarrow> 'a list list" where
  "findall_runs P n s = scan_runs P n [] s"

text \<open>\<open>str.strip()\<close>: leading and trailing ASCII whitespace removed.\<close>

definition is_space :: "char \<Rightarrow> bool" where
  "is_space c = (c \<in> set [CHR 0x09, CHR 0x0A, CHR 0x0B, CHR 0x0C, CHR 0x0D,
                           CHR 0x1C, CHR 0x1D, CHR 0x1E, CHR 0x1F, CHR 0x20])"

definition strip :: "string \<Rightarrow> string" where
  "strip s = rev (dropWhile is_space (rev (dropWhile is_space s)))"

text \<open>
  \<open>bytes.decode('utf-16', errors='ignore')\<close>: a byte order mark selects the byte order
  and is dropped, otherwise the host's order is used; a trailing odd byte, a lone low
  surrogate, and a high surrogate not followed by a low one are skipped; a high
  surrogate at the end of the data ends the decoding.
\<close>

datatype byteorder = LittleEndian | BigEndian

fun units16 :: "byteorder \<Rightarrow> bytes \<Rightarrow> nat list" where
  "units16 bo (a # b # rest) =
     (case bo of
        LittleEndian \<Rightarrow> of_char a + 256 * of_char b
      | BigEndian \<Rightarrow> 256 * of_char a + of_char b) # units16 bo rest"
| "units16 bo _ = []"

fun decode_units :: "nat list \<Rightarrow> unicode" where
  "decode_units [] = []"
| "decode_units [u] =
     (if u < 0xD800 \<or> 0xDFFF < u then [u] else [])"
| "decode_units (u # v # vs) =
     (if u < 0xD800 \<or> 0xDFFF < u then u # decode_units (v # vs)
      else if 0xDC00 \<le> u then decode_units (v # vs)
      else if 0xDC00 \<le> v \<and> v \<le> 0xDFFF
           then (0x10000 + (u - 0xD800) * 1024 + (v - 0xDC00)) # decode_units vs
           else decode_units (v # vs))"

definition utf16_decode_ignore :: "byteorder \<Rightarrow> bytes \<Rightarrow> unicode" where
  "utf16_decode_ignore host bs =
     (case bs of
        a # b # rest \<Rightarrow>
          if a = CHR 0xFF \<and> b = CHR 0xFE then decode_units (units16 LittleEndian rest)
          else if a = CHR 0xFE \<and> b = CHR 0xFF then decode_units (units16 BigEndian rest)
          else decode_units (units16 host bs)
      | _ \<Rightarrow> decode_units (units16 host bs))"

text \<open>The class on code points, and a match of the text pattern as a string.\<close>

definition in_alphabet_cp :: "nat \<Rightarrow> bool" where
  "in_alphabet_cp cp = (cp < 128 \<and> in_alphabet (char_of cp))"

text \<open>\<open>list(dict.fromkeys(strings))\<close>: the first occurrence of each key, in order.\<close>

fun fromkeys_from :: "'a list \<Rightarrow> 'a list \<Rightarrow> 'a list" where
  "fromkeys_from seen [] = []"
| "fromkeys_from seen (x # xs) =
     (if x \<in> set seen then fromkeys_from seen xs else x # fromkeys_from (x # seen) xs)"

definition fromkeys :: "'a list \<Rightarrow> 'a list" where
  "fromkeys xs = fromkeys_from [] xs"

text \<open>The strings found in a blob, before the file is written.\<close>

definition ascii_strings :: "nat \<Rightarrow> bytes \<Rightarrow> string list" where
  "ascii_strings min_length data =
     filter (\<lambda>s. s \<noteq> []) (map strip (findall_runs in_alphabet min_length data))"

definition utf16_strings :: "nat \<Rightarrow> byteorder \<Rightarrow> bytes \<Rightarrow> string list" where
  "utf16_strings min_length host data =
     filter (\<lambda>s. s \<noteq> [])
       (map (\<lambda>m. strip (map char_of m))
          (findall_runs in_alphabet_cp min_length (utf16_decode_ignore host data)))"

definition unique_strings :: "nat \<Rightarrow> byteorder \<Rightarrow> bytes \<Rightarrow> string list" where
  "unique_strings min_length host data =
     fromkeys (ascii_strings min_length data @ utf16_strings min_length host data)"

text \<open>
  \<open>extract_strings\<close>: read the file, collect, write one string per line to the output
  path (by default the file's path with \<open>.strings\<close> appended), return the list. An
  exception is logged and raised again.
\<close>

definition extract_strings ::
  "nat \<Rightarrow> byteorder \<Rightarrow> string \<Rightarrow> files \<Rightarrow> string \<Rightarrow> string option
     \<Rightarrow> files \<times> (py_exception + string list)" where
  "extract_strings min_length host sep fs file_path output_path =
     (let out = (case output_path of None \<Rightarrow> file_path @ ''.strings'' | Some p \<Rightarrow> p) in
      case fs file_path of
        None \<Rightarrow> (fs, Inl (PyExc ''FileNotFoundError'' file_path))
      | Some data \<Rightarrow>
          (let us = unique_strings min_length host data
           in (fs(out \<mapsto> concat (map (\<lambda>s. s @ sep) us)), Inr us)))"

text \<open>A file store holding one file.\<close>

definition one_file :: "string \<Rightarrow> bytes \<Rightarrow> files" where
  "one_file p data = (\<lambda>q. if q = p then Some data else None)"

text \<open>Three lines: a padded short word and a word twice.\<close>

definition sample_blob :: bytes where
  "sample_blob = ''Hi  '' @ [CHR 0x0A] @ ''abcd'' @ [CHR 0x0A] @ ''abcd''"

lemma fromkeys_from_set: "set (fromkeys_from seen xs) = set xs - set seen"
  by (induction xs arbitrary: seen) auto

lemma fromkeys_from_distinct: "distinct (fromkeys_from seen xs)"
  by (induction xs arbitrary: seen) (auto simp: fromkeys_from_set)

lemma fromkeys_distinct: "distinct (fromkeys xs) \<and> set (fromkeys xs) = set xs"
  by (simp add: fromkeys_def fromkeys_from_distinct fromkeys_from_set)

lemma unique_strings_distinct: "distinct (unique_strings n host data)"
  by (simp add: unique_strings_def fromkeys_distinct)

lemma in_alphabet_simps:
  "in_alphabet c = (c \<in> set (''ABCDEFGHIJKLMNOPQRSTUVWXYZabcdefghijklmnopqrstuvwxyz0123456789+/=-:. ,_$%()[]<>'' @ [CHR 0x27]))"
  by (simp add: in_alphabet_def ascii_uppercase_def ascii_lowercase_def digits_def)

lemma ascii_strings_Hi: "ascii_strings 4 ''Hi  '' = [''Hi'']"
  by (simp add: ascii_strings_def findall_runs_def emit_def in_alphabet_simps strip_def is_space_def)

lemma utf16_strings_Hi: "utf16_strings 4 LittleEndian ''Hi  '' = []"
  by (simp add: utf16_strings_def findall_runs_def emit_def utf16_decode_ignore_def in_alphabet_cp_def)

text \<open>
  Claim C2. The code breaks it: the length bound is checked on the run the pattern
  matches, and the run is trimmed afterwards. The four bytes \<open>Hi\<close> and two spaces are a
  run of length 4 and are returned as the two-character string \<open>Hi\<close>, shorter than the
  minimum length of 4 that the docstring, the command line help and the test
  (\<open>Hi\<close>: only 2 characters, should be filtered out) promise.
\<close>

theorem extract_strings_short_string:
  "extract_strings 4 LittleEndian [CHR 0x0A] (one_file ''f'' ''Hi  '') ''f'' None
     = ((one_file ''f'' ''Hi  '')(''f.strings'' \<mapsto> ''Hi'' @ [CHR 0x0A]), Inr [''Hi''])
   \<and> length ''Hi'' < 4"
  by (simp add: extract_strings_def unique_strings_def ascii_strings_Hi utf16_strings_Hi
        fromkeys_def one_file_def Let_def)

lemma remdups_snoc: "remdups (ys @ [x]) = remdups (filter (\<lambda>y. y \<noteq> x) ys) @ [x]"
  by (induction ys) auto

lemma fromkeys_from_remdups:
  "fromkeys_from seen xs = rev (remdups (rev (filter (\<lambda>y. y \<notin> set seen) xs)))"
proof (induction xs arbitrary: seen)
  case Nil
  show ?case by simp
next
  case (Cons x xs)
  show ?case
  proof (cases "x \<in> set seen")
    case True
    then show ?thesis using Cons.IH[of seen] by simp
  next
    case False
    have "filter (\<lambda>y. y \<noteq> x) (rev (filter (\<lambda>y. y \<notin> set seen) xs))
            = rev (filter (\<lambda>y. y \<notin> set (x # seen)) xs)"
      by (induction xs) auto
    then show ?thesis using False Cons.IH[of "x # seen"] by (simp add: remdups_snoc)
  qed
qed

lemma fromkeys_first_occurrences: "fromkeys xs = rev (remdups (rev xs))"
  by (simp add: fromkeys_def fromkeys_from_remdups)

lemma scan_runs_sound:
  "r \<in> set (scan_runs P n cur xs) \<Longrightarrow> \<forall>x \<in> set cur. P x
   \<Longrightarrow> r \<noteq> [] \<and> n \<le> length r \<and> (\<forall>x \<in> set r. P x) \<and> sublist r (rev cur @ xs)"
proof (induction xs arbitrary: cur)
  case Nil
  then show ?case by (auto simp: emit_def split: if_splits)
next
  case (Cons x xs)
  show ?case
  proof (cases "P x")
    case True
    then have m: "r \<in> set (scan_runs P n (x # cur) xs)" using Cons.prems(1) by simp
    have c: "\<forall>y \<in> set (x # cur). P y" using True Cons.prems(2) by simp
    have h: "r \<noteq> [] \<and> n \<le> length r \<and> (\<forall>x \<in> set r. P x) \<and> sublist r (rev (x # cur) @ xs)"
      by (rule Cons.IH[OF m c])
    have eq: "rev (x # cur) @ xs = rev cur @ x # xs" by simp
    show ?thesis using h unfolding eq .
  next
    case False
    then consider "r \<in> set (emit n cur)" | "r \<in> set (scan_runs P n [] xs)"
      using Cons.prems(1) by auto
    then show ?thesis
    proof cases
      case 1
      then have r: "r = rev cur" "cur \<noteq> []" "n \<le> length cur"
        by (auto simp: emit_def split: if_splits)
      have "sublist r (rev cur @ x # xs)" unfolding r(1) by (rule sublist_append_rightI)
      moreover have "r \<noteq> []" "n \<le> length r" "\<forall>x \<in> set r. P x"
        using r Cons.prems(2) by simp_all
      ultimately show ?thesis by blast
    next
      case 2
      have e: "\<forall>y \<in> set []. P y" by simp
      have h: "r \<noteq> [] \<and> n \<le> length r \<and> (\<forall>x \<in> set r. P x) \<and> sublist r (rev [] @ xs)"
        by (rule Cons.IH[OF 2 e])
      then obtain ps ss where "rev [] @ xs = ps @ r @ ss" unfolding sublist_def by blast
      then have "rev cur @ x # xs = (rev cur @ x # ps) @ r @ ss" by simp
      then have "sublist r (rev cur @ x # xs)" unfolding sublist_def by blast
      then show ?thesis using h by blast
    qed
  qed
qed

lemma findall_runs_sound:
  "r \<in> set (findall_runs P n s)
   \<Longrightarrow> r \<noteq> [] \<and> n \<le> length r \<and> (\<forall>x \<in> set r. P x) \<and> sublist r s"
  using scan_runs_sound[of r P n "[]" s] unfolding findall_runs_def by (simp del: sublist_code)

lemma ascii_strings_run:
  assumes "s \<in> set (ascii_strings n data)"
  shows "s \<noteq> [] \<and> (\<exists>run. s = strip run \<and> n \<le> length run \<and> (\<forall>c \<in> set run. in_alphabet c)
            \<and> sublist run data)"
proof -
  from assms obtain run where r: "run \<in> set (findall_runs in_alphabet n data)" "s = strip run" "s \<noteq> []"
    unfolding ascii_strings_def by auto
  from findall_runs_sound[OF r(1)] r(2,3) show ?thesis by blast
qed

lemma utf16_strings_run:
  assumes "s \<in> set (utf16_strings n host data)"
  shows "s \<noteq> [] \<and> (\<exists>m. s = strip (map char_of m) \<and> n \<le> length (map char_of m :: string)
            \<and> (\<forall>c \<in> set (map char_of m :: string). in_alphabet c)
            \<and> sublist m (utf16_decode_ignore host data))"
proof -
  from assms obtain m where r: "m \<in> set (findall_runs in_alphabet_cp n (utf16_decode_ignore host data))"
      "s = strip (map char_of m)" "s \<noteq> []"
    unfolding utf16_strings_def by auto
  from findall_runs_sound[OF r(1)]
  have "n \<le> length m" "\<forall>x \<in> set m. in_alphabet_cp x" "sublist m (utf16_decode_ignore host data)"
    by blast+
  then have "n \<le> length (map char_of m :: string)"
       "\<forall>c \<in> set (map char_of m :: string). in_alphabet c"
    by (auto simp: in_alphabet_cp_def)
  then show ?thesis using r(2,3) \<open>sublist m (utf16_decode_ignore host data)\<close> by blast
qed

text \<open>
  What the returned list does satisfy. For a readable file \<open>extract_strings\<close> returns a
  list without duplicates, the first occurrences in discovery order (ASCII matches, then
  UTF-16 matches), in which every string is non-empty and is what \<open>strip\<close> leaves of a run
  of at least \<open>min_length\<close> characters of the alphabet, found in the bytes or in their
  UTF-16 decoding.
\<close>

theorem extract_strings_trimmed_runs:
  assumes "fs file_path = Some data"
  shows "(\<exists>fs'. extract_strings n host sep fs file_path output_path
                 = (fs', Inr (unique_strings n host data)))
       \<and> distinct (unique_strings n host data)
       \<and> unique_strings n host data
           = rev (remdups (rev (ascii_strings n data @ utf16_strings n host data)))
       \<and> (\<forall>s \<in> set (unique_strings n host data).
             s \<noteq> [] \<and> (\<exists>run. s = strip run \<and> n \<le> length run \<and> (\<forall>c \<in> set run. in_alphabet c)
                         \<and> (sublist run data
                              \<or> (\<exists>m. run = map char_of m \<and> sublist m (utf16_decode_ignore host data)))))"
proof (intro conjI ballI)
  show "\<exists>fs'. extract_strings n host sep fs file_path output_path
                 = (fs', Inr (unique_strings n host data))"
    using assms by (simp add: extract_strings_def Let_def)
  show "distinct (unique_strings n host data)" by (rule unique_strings_distinct)
  show "unique_strings n host data
           = rev (remdups (rev (ascii_strings n data @ utf16_strings n host data)))"
    unfolding unique_strings_def by (rule fromkeys_first_occurrences)
next
  fix s assume "s \<in> set (unique_strings n host data)"
  then have "s \<in> set (ascii_strings n data) \<or> s \<in> set (utf16_strings n host data)"
    by (simp add: unique_strings_def fromkeys_distinct)
  then show "s \<noteq> []"
    using ascii_strings_run utf16_strings_run by blast
next
  fix s assume "s \<in> set (unique_strings n host data)"
  then consider "s \<in> set (ascii_strings n data)" | "s \<in> set (utf16_strings n host data)"
    by (auto simp: unique_strings_def fromkeys_distinct)
  then show "\<exists>run. s = strip run \<and> n \<le> length run \<and> (\<forall>c \<in> set run. in_alphabet c)
                         \<and> (sublist run data
                              \<or> (\<exists>m. run = map char_of m \<and> sublist m (utf16_decode_ignore host data)))"
  proof cases
    case 1
    from ascii_strings_run[OF 1] show ?thesis by blast
  next
    case 2
    from utf16_strings_run[OF 2] show ?thesis by blast
  qed
qed

lemma unique_strings_sample: "unique_strings 4 LittleEndian sample_blob = [''Hi'', ''abcd'']"
  by (simp add: unique_strings_def ascii_strings_def utf16_strings_def findall_runs_def emit_def
        in_alphabet_simps strip_def is_space_def utf16_decode_ignore_def in_alphabet_cp_def
        fromkeys_def sample_blob_def)

theorem extract_strings_trimmed_runs_witness:
  "one_file ''f'' sample_blob ''f'' = Some sample_blob
   \<and> snd (extract_strings 4 LittleEndian [CHR 0x0A] (one_file ''f'' sample_blob) ''f'' None)
       = Inr [''Hi'', ''abcd'']
   \<and> distinct (unique_strings 4 LittleEndian sample_blob)"
proof -
  have f: "one_file ''f'' sample_blob ''f'' = Some sample_blob" by (simp add: one_file_def)
  from extract_strings_trimmed_runs[where fs = "one_file ''f'' sample_blob" and file_path = "''f''"
         and data = sample_blob and n = 4 and host = LittleEndian and sep = "[CHR 0x0A]"
         and output_path = None, OF f]
  show ?thesis using f by (auto simp: unique_strings_sample)
qed

section \<open>Decoding the secondary payload (iso_handler.py)\<close>

text \<open>
  Base64 as Python's \<open>base64\<close> module computes it. \<open>b64encode\<close> maps three bytes to four
  characters of the alphabet and pads the last group with \<open>=\<close>.
\<close>

definition b64_alphabet :: string where
  "b64_alphabet = ascii_uppercase @ ascii_lowercase @ digits @ ''+/''"

definition b2a :: "nat \<Rightarrow> char" where
  "b2a v = b64_alphabet ! v"

definition a2b :: "char \<Rightarrow> nat option" where
  "a2b c = map_of (zip b64_alphabet [0..<64]) c"

fun b64encode :: "bytes \<Rightarrow> bytes" where
  "b64encode [] = []"
| "b64encode [x] =
     (let a = (of_char x :: nat)
      in [b2a (a div 4), b2a ((a mod 4) * 16), CHR ''='', CHR ''=''])"
| "b64encode [x, y] =
     (let a = (of_char x :: nat); b = (of_char y :: nat)
      in [b2a (a div 4), b2a ((a mod 4) * 16 + b div 16), b2a ((b mod 16) * 4), CHR ''=''])"
| "b64encode (x # y # z # rest) =
     (let a = (of_char x :: nat); b = (of_char y :: nat); c = (of_char z :: nat)
      in [b2a (a div 4), b2a ((a mod 4) * 16 + b div 16),
          b2a ((b mod 16) * 4 + c div 64), b2a (c mod 64)] @ b64encode rest)"

text \<open>
  \<open>binascii.a2b_base64\<close> without strict mode, which \<open>base64.b64decode\<close> calls by default:
  the loop over the input with its state \<open>quad_pos\<close>, \<open>leftchar\<close> and \<open>pads\<close>.
  A character outside the alphabet is skipped; a pad that completes a group ends the
  decoding; input that ends inside a group is an error. The shifts and masks of the C
  code are written as arithmetic on numbers below 64.
\<close>

fun a2b_loop :: "nat \<Rightarrow> nat \<Rightarrow> nat \<Rightarrow> bytes \<Rightarrow> bytes \<Rightarrow> py_exception + bytes" where
  "a2b_loop quad_pos leftchar pads [] out =
     (if quad_pos \<noteq> 0
      then (if quad_pos = 1
            then Inl (PyExc ''binascii.Error''
                   ''Invalid base64-encoded string: number of data characters cannot be 1 more than a multiple of 4'')
            else Inl (PyExc ''binascii.Error'' ''Incorrect padding''))
      else Inr out)"
| "a2b_loop quad_pos leftchar pads (c # cs) out =
     (if c = CHR ''='' then
        (if 2 \<le> quad_pos \<and> 4 \<le> quad_pos + (pads + 1) then Inr out
         else a2b_loop quad_pos leftchar (if 2 \<le> quad_pos then pads + 1 else pads) cs out)
      else
        (case a2b c of
           None \<Rightarrow> a2b_loop quad_pos leftchar pads cs out
         | Some v \<Rightarrow>
             (if quad_pos = 0 then a2b_loop 1 v 0 cs out
              else if quad_pos = 1
                then a2b_loop 2 (v mod 16) 0 cs (out @ [char_of (leftchar * 4 + v div 16)])
              else if quad_pos = 2
                then a2b_loop 3 (v mod 4) 0 cs (out @ [char_of (leftchar * 16 + v div 4)])
              else a2b_loop 0 0 0 cs (out @ [char_of (leftchar * 64 + v)]))))"

definition b64decode :: "bytes \<Rightarrow> py_exception + bytes" where
  "b64decode s = a2b_loop 0 0 0 s []"

text \<open>Reading in text mode: \<open>CR LF\<close> and a lone \<open>CR\<close> become \<open>LF\<close>.\<close>

fun universal_newlines :: "string \<Rightarrow> string" where
  "universal_newlines [] = []"
| "universal_newlines [c] = (if c = CHR 0x0D then [CHR 0x0A] else [c])"
| "universal_newlines (c # d # cs) =
     (if c = CHR 0x0D \<and> d = CHR 0x0A then CHR 0x0A # universal_newlines cs
      else if c = CHR 0x0D then CHR 0x0A # universal_newlines (d # cs)
      else c # universal_newlines (d # cs))"

text \<open>
  \<open>ISODownloader.decode_iso\<close>. The file is read as UTF-8 text and handed to
  \<open>b64decode\<close>, which accepts a string only when it is ASCII: a file with a byte above 127
  raises (a \<open>UnicodeDecodeError\<close> or the \<open>ValueError\<close> of \<open>b64decode\<close>, both
  \<open>ValueError\<close>s). \<open>wfault\<close> tells whether opening a path for writing fails. The result
  is the file store after the call and the path returned or the exception raised.
\<close>

definition decode_iso ::
  "(string \<Rightarrow> py_exception option) \<Rightarrow> files \<Rightarrow> string \<Rightarrow> string
     \<Rightarrow> files \<times> (py_exception + string)" where
  "decode_iso wfault fs iso_path output_dir =
     (case fs iso_path of
        None \<Rightarrow> (fs, Inl (PyExc ''FileNotFoundError'' iso_path))
      | Some raw \<Rightarrow>
          if \<exists>b \<in> set raw. 128 \<le> (of_char b :: nat)
          then (fs, Inl (PyExc ''ValueError'' ''string argument should contain only ASCII characters''))
          else (let data = universal_newlines raw in
                case b64decode data of
                  Inl e \<Rightarrow> (fs, Inl e)
                | Inr decoded1 \<Rightarrow>
                    (let encoded_path = joinpath output_dir ''encoded.b64'' in
                     case wfault encoded_path of
                       Some e \<Rightarrow> (fs, Inl e)
                     | None \<Rightarrow>
                         (let fs1 = fs(encoded_path \<mapsto> decoded1) in
                          case b64decode decoded1 of
                            Inl e \<Rightarrow> (fs1, Inl e)
                          | Inr decoded2 \<Rightarrow>
                              (let zip_path = joinpath output_dir ''decoded.zip'' in
                               case wfault zip_path of
                                 Some e \<Rightarrow> (fs1, Inl e)
                               | None \<Rightarrow> (fs1(zip_path \<mapsto> decoded2), Inr zip_path))))))"

text \<open>
  Well-formed base64 text in the sense of the specification (RFC 4648 with padding):
  whole groups of four, alphabet characters followed by at most two pads.
\<close>

definition valid_base64 :: "bytes \<Rightarrow> bool" where
  "valid_base64 s =
     (length s mod 4 = 0
      \<and> list_all (\<lambda>c. c \<in> set b64_alphabet) (takeWhile (\<lambda>c. c \<noteq> CHR ''='') s)
      \<and> dropWhile (\<lambda>c. c \<noteq> CHR ''='') s \<in> set [[], ''='', ''==''])"

text \<open>
  When a decoding ends inside a group, said without the decoder's state: reading only
  pads and alphabet characters, a pad completes a group when it comes after three
  characters of the group, or after two when the next character read is a pad as well;
  \<open>n\<close> counts the alphabet characters read so far. The input ends inside a group when
  no pad completes one and the alphabet characters do not fill groups of four.
\<close>

definition next_is_pad :: "bytes \<Rightarrow> bool" where
  "next_is_pad s =
     (case filter (\<lambda>c. c = CHR ''='' \<or> c \<in> set b64_alphabet) s of
        [] \<Rightarrow> False
      | d # _ \<Rightarrow> d = CHR ''='')"

fun pad_completes :: "nat \<Rightarrow> bytes \<Rightarrow> bool" where
  "pad_completes n [] = False"
| "pad_completes n (c # cs) =
     (if c = CHR ''='' then
        (if n mod 4 = 3 then True
         else if n mod 4 = 2 \<and> next_is_pad cs then True
         else pad_completes n cs)
      else if c \<in> set b64_alphabet then pad_completes (Suc n) cs
      else pad_completes n cs)"

definition ends_inside_group :: "bytes \<Rightarrow> bool" where
  "ends_inside_group s =
     (\<not> pad_completes 0 s
      \<and> length (filter (\<lambda>c. c \<in> set b64_alphabet) s) mod 4 \<noteq> 0)"

text \<open>The characters the decoder reads: the alphabet's, and the pad.\<close>

definition significant :: "bytes \<Rightarrow> bytes" where
  "significant s = filter (\<lambda>c. c = CHR ''='' \<or> c \<in> set b64_alphabet) s"

text \<open>Every output file can be opened.\<close>

definition no_wfault :: "string \<Rightarrow> py_exception option" where
  "no_wfault p = None"

lemma b64_alphabet_simps:
  "b64_alphabet = ''ABCDEFGHIJKLMNOPQRSTUVWXYZabcdefghijklmnopqrstuvwxyz0123456789+/''"
  by (simp add: b64_alphabet_def ascii_uppercase_def ascii_lowercase_def digits_def)

lemma b64_alphabet_length: "length b64_alphabet = 64"
  by (simp add: b64_alphabet_simps)

lemma b64_alphabet_distinct: "distinct b64_alphabet"
  by (simp add: b64_alphabet_simps)

lemma b64_alphabet_ascii: "c \<in> set b64_alphabet \<Longrightarrow> (of_char c :: nat) < 128 \<and> c \<noteq> CHR ''='' \<and> c \<noteq> CHR 0x0D"
  by (auto simp: b64_alphabet_simps)

lemma b2a_mem: "v < 64 \<Longrightarrow> b2a v \<in> set b64_alphabet"
  by (simp add: b2a_def b64_alphabet_length)

lemma a2b_b2a: "v < 64 \<Longrightarrow> a2b (b2a v) = Some v"
proof -
  assume v: "v < 64"
  have "map_of (zip b64_alphabet [0..<64]) (b64_alphabet ! v) = Some ([0..<64] ! v)"
    by (rule map_of_zip_nth) (simp_all add: b64_alphabet_length b64_alphabet_distinct v)
  then show ?thesis using v by (simp add: a2b_def b2a_def)
qed

lemma b2a_not_pad: "v < 64 \<Longrightarrow> b2a v \<noteq> CHR ''=''"
  using b2a_mem b64_alphabet_ascii by blast

lemma a2b_Some_iff: "(a2b c \<noteq> None) = (c \<in> set b64_alphabet)"
proof -
  have "dom (map_of (zip b64_alphabet [0..<64])) = set b64_alphabet"
    by (rule dom_map_of_zip) (simp add: b64_alphabet_length)
  then show ?thesis unfolding a2b_def by (metis domIff)
qed

lemma step_data:
  "v < 64 \<Longrightarrow> a2b_loop q l p (b2a v # cs) out =
     (if q = 0 then a2b_loop 1 v 0 cs out
      else if q = 1 then a2b_loop 2 (v mod 16) 0 cs (out @ [char_of (l * 4 + v div 16)])
      else if q = 2 then a2b_loop 3 (v mod 4) 0 cs (out @ [char_of (l * 16 + v div 4)])
      else a2b_loop 0 0 0 cs (out @ [char_of (l * 64 + v)]))"
  by (simp add: a2b_b2a b2a_not_pad)

lemma byte_lt: "(of_char (x :: char) :: nat) < 256"
  by simp

lemma group3:
  fixes x y z :: char
  defines "a \<equiv> (of_char x :: nat)" and "b \<equiv> (of_char y :: nat)" and "c \<equiv> (of_char z :: nat)"
  shows "a div 4 < 64" "(a mod 4) * 16 + b div 16 < 64" "(b mod 16) * 4 + c div 64 < 64" "c mod 64 < 64"
        "(a mod 4) * 16 < 64" "(b mod 16) * 4 < 64"
        "char_of (a div 4 * 4 + ((a mod 4) * 16 + b div 16) div 16) = x"
        "char_of (((a mod 4) * 16 + b div 16) mod 16 * 16 + ((b mod 16) * 4 + c div 64) div 4) = y"
        "char_of (((b mod 16) * 4 + c div 64) mod 4 * 64 + c mod 64) = z"
        "char_of (a div 4 * 4 + ((a mod 4) * 16) div 16) = x"
        "char_of (((a mod 4) * 16 + b div 16) mod 16 * 16 + ((b mod 16) * 4) div 4) = y"
proof -
  have la: "a < 256" and lb: "b < 256" and lc: "c < 256" unfolding a_def b_def c_def by simp_all
  show "a div 4 < 64" using la by simp
  have m4: "a mod 4 < 4" and d16: "b div 16 < 16" using lb by simp_all
  show "(a mod 4) * 16 + b div 16 < 64" using m4 d16 by linarith
  show "(b mod 16) * 4 + c div 64 < 64" using lc by simp
  show "c mod 64 < 64" by simp
  show "(a mod 4) * 16 < 64" by simp
  show "(b mod 16) * 4 < 64" by simp
  have "a div 4 * 4 + ((a mod 4) * 16 + b div 16) div 16 = a" using lb by simp
  then show "char_of (a div 4 * 4 + ((a mod 4) * 16 + b div 16) div 16) = x" by (simp add: a_def)
  have "((a mod 4) * 16 + b div 16) mod 16 * 16 + ((b mod 16) * 4 + c div 64) div 4 = b"
    using lb lc by simp
  then show "char_of (((a mod 4) * 16 + b div 16) mod 16 * 16 + ((b mod 16) * 4 + c div 64) div 4) = y"
    by (simp add: b_def)
  have "((b mod 16) * 4 + c div 64) mod 4 * 64 + c mod 64 = c" using lc by simp
  then show "char_of (((b mod 16) * 4 + c div 64) mod 4 * 64 + c mod 64) = z" by (simp add: c_def)
  have "a div 4 * 4 + ((a mod 4) * 16) div 16 = a" by simp
  then show "char_of (a div 4 * 4 + ((a mod 4) * 16) div 16) = x" by (simp add: a_def)
  have "((a mod 4) * 16 + b div 16) mod 16 * 16 + ((b mod 16) * 4) div 4 = b" using lb by simp
  then show "char_of (((a mod 4) * 16 + b div 16) mod 16 * 16 + ((b mod 16) * 4) div 4) = y"
    by (simp add: b_def)
qed

lemma a2b_loop_pad:
  "a2b_loop q l p (CHR ''='' # cs) out =
     (if 2 \<le> q \<and> 4 \<le> q + (p + 1) then Inr out
      else a2b_loop q l (if 2 \<le> q then p + 1 else p) cs out)"
  by simp

lemma a2b_loop_encode: "a2b_loop 0 l 0 (b64encode bs) out = Inr (out @ bs)"
proof (induction bs arbitrary: l out rule: b64encode.induct)
  case 1
  show ?case by simp
next
  case (2 x)
  show ?case
    by (simp only: b64encode.simps Let_def step_data group3 a2b_loop_pad) simp
next
  case (3 x y)
  show ?case
    by (simp only: b64encode.simps Let_def step_data group3 a2b_loop_pad) simp
next
  case (4 x y z rest)
  have "a2b_loop 0 l 0 (b64encode (x # y # z # rest)) out
          = a2b_loop 0 0 0 (b64encode rest) (((out @ [x]) @ [y]) @ [z])"
    by (simp only: b64encode.simps Let_def append_Cons append_Nil step_data group3) simp
  then show ?case using "4.IH" by simp
qed

lemma b64decode_b64encode: "b64decode (b64encode bs) = Inr bs"
  using a2b_loop_encode[of 0 bs "[]"] by (simp add: b64decode_def)

lemma b64encode_chars:
  "c \<in> set (b64encode bs) \<Longrightarrow> c \<in> set b64_alphabet \<or> c = CHR ''=''"
proof (induction bs rule: b64encode.induct)
  case 1
  then show ?case by simp
next
  case (2 x)
  then show ?case using b2a_mem group3(1,5) by (auto simp: Let_def)
next
  case (3 x y)
  then show ?case using b2a_mem group3(1,2,6) by (auto simp: Let_def)
next
  case (4 x y z rest)
  then show ?case using b2a_mem group3(1,2,3,4) by (auto simp: Let_def)
qed

lemma b64encode_ascii: "c \<in> set (b64encode bs) \<Longrightarrow> (of_char c :: nat) < 128 \<and> c \<noteq> CHR 0x0D"
  using b64encode_chars b64_alphabet_ascii by fastforce

lemma universal_newlines_id: "CHR 0x0D \<notin> set s \<Longrightarrow> universal_newlines s = s"
  by (induction s rule: universal_newlines.induct) auto

lemma a2b_None_iff: "(a2b c = None) = (c \<notin> set b64_alphabet)"
  using a2b_Some_iff[of c] by blast

lemma a2b_loop_significant: "a2b_loop q l p (significant s) out = a2b_loop q l p s out"
proof (induction s arbitrary: q l p out)
  case Nil
  show ?case by (simp add: significant_def)
next
  case (Cons c cs)
  have IH: "\<And>q l p out. a2b_loop q l p (filter (\<lambda>c. c = CHR ''='' \<or> c \<in> set b64_alphabet) cs) out
              = a2b_loop q l p cs out"
    using Cons.IH by (simp add: significant_def)
  show ?case
  proof (cases "c = CHR ''='' \<or> c \<in> set b64_alphabet")
    case True
    then show ?thesis
      by (cases "a2b c") (simp_all add: significant_def IH)
  next
    case False
    then have "a2b c = None" by (simp add: a2b_None_iff)
    then show ?thesis using False by (simp add: significant_def IH)
  qed
qed

lemma pad_not_alphabet: "CHR ''='' \<notin> set b64_alphabet"
  by (simp add: b64_alphabet_simps)

lemma next_is_pad_Cons:
  "next_is_pad (c # cs) =
     (if c = CHR ''='' then True else if c \<in> set b64_alphabet then False else next_is_pad cs)"
  by (simp add: next_is_pad_def)

lemma a2b_loop_data_step:
  assumes "a2b c = Some v" and "c \<noteq> CHR ''=''" and "q < 4"
  shows "\<exists>l' out'. a2b_loop q l p (c # cs) out = a2b_loop (Suc q mod 4) l' 0 cs out'"
proof -
  consider "q = 0" | "q = 1" | "q = 2" | "q = 3" using assms(3) by linarith
  then show ?thesis
  proof cases
    case 1
    have m: "Suc q mod 4 = 1" using 1 by simp
    have "a2b_loop q l p (c # cs) out = a2b_loop 1 v 0 cs out" using 1 assms(1,2) by simp
    then show ?thesis unfolding m by blast
  next
    case 2
    have m: "Suc q mod 4 = 2" using 2 by simp
    have "a2b_loop q l p (c # cs) out
            = a2b_loop 2 (v mod 16) 0 cs (out @ [char_of (l * 4 + v div 16)])"
      using 2 assms(1,2) by simp
    then show ?thesis unfolding m by blast
  next
    case 3
    have m: "Suc q mod 4 = 3" using 3 by simp
    have "a2b_loop q l p (c # cs) out
            = a2b_loop 3 (v mod 4) 0 cs (out @ [char_of (l * 16 + v div 4)])"
      using 3 assms(1,2) by simp
    then show ?thesis unfolding m by blast
  next
    case 4
    have m: "Suc q mod 4 = 0" using 4 by simp
    have "a2b_loop q l p (c # cs) out = a2b_loop 0 0 0 cs (out @ [char_of (l * 64 + v)])"
      using 4 assms(1,2) by simp
    then show ?thesis unfolding m by blast
  qed
qed

lemma a2b_loop_raises:
  "p \<le> 1 \<Longrightarrow> (p = 1 \<longrightarrow> n mod 4 = 2) \<Longrightarrow>
   (\<exists>e. a2b_loop (n mod 4) l p s out = Inl e)
     = (\<not> ((p = 1 \<and> next_is_pad s) \<or> pad_completes n s)
        \<and> (n + length (filter (\<lambda>c. c \<in> set b64_alphabet) s)) mod 4 \<noteq> 0)"
proof (induction s arbitrary: n l p out)
  case Nil
  show ?case by (simp add: next_is_pad_def)
next
  case (Cons c cs)
  let ?A = "\<lambda>c. c \<in> set b64_alphabet"
  show ?case
  proof (cases "c = CHR ''=''")
    case True
    have nd: "filter ?A (c # cs) = filter ?A cs" using True pad_not_alphabet by simp
    consider (three) "n mod 4 = 3" | (two1) "n mod 4 = 2" "p = 1" | (two0) "n mod 4 = 2" "p = 0"
      | (low) "n mod 4 < 2"
      using Cons.prems(1) by (cases "n mod 4 = 3"; cases "n mod 4 = 2"; cases "p = 1") linarith+
    then show ?thesis
    proof cases
      case three
      have "a2b_loop (n mod 4) l p (c # cs) out = Inr out" using True three by simp
      moreover have "pad_completes n (c # cs)" using True three by simp
      ultimately show ?thesis by simp
    next
      case two1
      have "a2b_loop (n mod 4) l p (c # cs) out = Inr out" using True two1 by simp
      moreover have "next_is_pad (c # cs)" using True by (simp add: next_is_pad_Cons)
      ultimately show ?thesis using two1 by simp
    next
      case two0
      have step: "a2b_loop (n mod 4) l p (c # cs) out = a2b_loop (n mod 4) l 1 cs out"
        using True two0 by simp
      have ih: "(\<exists>e. a2b_loop (n mod 4) l 1 cs out = Inl e)
                  = (\<not> ((1 = (1::nat) \<and> next_is_pad cs) \<or> pad_completes n cs)
                     \<and> (n + length (filter ?A cs)) mod 4 \<noteq> 0)"
        by (rule Cons.IH) (simp_all add: two0)
      have pc: "pad_completes n (c # cs) = (next_is_pad cs \<or> pad_completes n cs)"
        using True two0 by simp
      show ?thesis unfolding step ih pc nd using two0 by simp
    next
      case low
      then have p0: "p = 0" using Cons.prems by (cases "p = 1") auto
      have step: "a2b_loop (n mod 4) l p (c # cs) out = a2b_loop (n mod 4) l 0 cs out"
        using True low p0 by simp
      have ih: "(\<exists>e. a2b_loop (n mod 4) l 0 cs out = Inl e)
                  = (\<not> ((0 = (1::nat) \<and> next_is_pad cs) \<or> pad_completes n cs)
                     \<and> (n + length (filter ?A cs)) mod 4 \<noteq> 0)"
        by (rule Cons.IH) simp_all
      have pc: "pad_completes n (c # cs) = pad_completes n cs"
        using True low by simp
      show ?thesis unfolding step ih pc nd using p0 by simp
    qed
  next
    case False
    show ?thesis
    proof (cases "c \<in> set b64_alphabet")
      case True
      then obtain v where v: "a2b c = Some v" using a2b_Some_iff[of c] by auto
      have q: "n mod 4 < 4" by simp
      from a2b_loop_data_step[OF v False q] obtain l' out' where
        step: "a2b_loop (n mod 4) l p (c # cs) out = a2b_loop (Suc (n mod 4) mod 4) l' 0 cs out'"
        by blast
      have m: "Suc (n mod 4) mod 4 = Suc n mod 4" by (simp add: mod_Suc_eq)
      have ih: "(\<exists>e. a2b_loop (Suc n mod 4) l' 0 cs out' = Inl e)
                  = (\<not> ((0 = (1::nat) \<and> next_is_pad cs) \<or> pad_completes (Suc n) cs)
                     \<and> (Suc n + length (filter ?A cs)) mod 4 \<noteq> 0)"
        by (rule Cons.IH) simp_all
      have pc: "pad_completes n (c # cs) = pad_completes (Suc n) cs"
        using True False by simp
      have np: "\<not> next_is_pad (c # cs)" using True False by (simp add: next_is_pad_Cons)
      have len: "n + length (filter ?A (c # cs)) = Suc n + length (filter ?A cs)"
        using True by simp
      show ?thesis unfolding step m ih pc len using np by simp
    next
      case notin: False
      then have v: "a2b c = None" by (simp add: a2b_None_iff)
      have step: "a2b_loop (n mod 4) l p (c # cs) out = a2b_loop (n mod 4) l p cs out"
        using v False by simp
      have ih: "(\<exists>e. a2b_loop (n mod 4) l p cs out = Inl e)
                  = (\<not> ((p = 1 \<and> next_is_pad cs) \<or> pad_completes n cs)
                     \<and> (n + length (filter ?A cs)) mod 4 \<noteq> 0)"
        by (rule Cons.IH) (use Cons.prems in simp_all)
      have pc: "pad_completes n (c # cs) = pad_completes n cs" using notin False by simp
      have np: "next_is_pad (c # cs) = next_is_pad cs" using notin False by (simp add: next_is_pad_Cons)
      have len: "filter ?A (c # cs) = filter ?A cs" using notin by simp
      show ?thesis unfolding step ih pc np len by simp
    qed
  qed
qed

lemma b64decode_raises_iff: "(\<exists>e. b64decode s = Inl e) = ends_inside_group s"
  using a2b_loop_raises[of 0 0 0 s "[]"] by (simp add: b64decode_def ends_inside_group_def)

lemma b64decode_significant: "b64decode (significant s) = b64decode s"
  by (simp add: b64decode_def a2b_loop_significant)

text \<open>
  Claim C3, as stated, fails in its second half: \<open>b64decode\<close> is called without
  validation, so text that is not valid base64 need not raise. With a stray \<open>!\<close> in the
  double encoding of \<open>ABC\<close> the two passes still return \<open>ABC\<close>, and \<open>!!!!\<close> decodes to
  an empty archive.
\<close>

theorem decode_iso_lenient_counterexample:
  "\<not> valid_base64 ''UVVK!RA==''
   \<and> snd (decode_iso no_wfault (one_file ''p'' ''UVVK!RA=='') ''p'' ''out'') = Inr ''out/decoded.zip''
   \<and> fst (decode_iso no_wfault (one_file ''p'' ''UVVK!RA=='') ''p'' ''out'') ''out/decoded.zip''
       = Some ''ABC''
   \<and> \<not> valid_base64 ''!!!!''
   \<and> snd (decode_iso no_wfault (one_file ''p'' ''!!!!'') ''p'' ''out'') = Inr ''out/decoded.zip''"
  by code_simp

text \<open>
  Claim C3, amended. On a file holding the double encoding of \<open>b\<close>, with both output
  files writable, \<open>decode_iso\<close> writes the single encoding to \<open>encoded.b64\<close> and \<open>b\<close>
  itself to \<open>decoded.zip\<close>, and returns that path. On any file it raises exactly when the
  file holds a byte above 127, or the first pass ends inside a group, or, the first pass
  having decoded, \<open>encoded.b64\<close> cannot be written, the second pass ends inside a group
  or \<open>decoded.zip\<close> cannot be written; a missing file raises. A pass raises exactly when
  its input ends inside a group, and decodes its input as it decodes the input without
  the characters outside the alphabet.
\<close>

theorem decode_iso_roundtrip:
  "(fs iso_path = Some (b64encode (b64encode b))
      \<and> wfault (joinpath output_dir ''encoded.b64'') = None
      \<and> wfault (joinpath output_dir ''decoded.zip'') = None \<longrightarrow>
      decode_iso wfault fs iso_path output_dir
        = (fs(joinpath output_dir ''encoded.b64'' \<mapsto> b64encode b,
              joinpath output_dir ''decoded.zip'' \<mapsto> b),
           Inr (joinpath output_dir ''decoded.zip'')))
   \<and> (fs iso_path = Some raw \<longrightarrow>
        (\<exists>e. snd (decode_iso wfault fs iso_path output_dir) = Inl e)
          = ((\<exists>c \<in> set raw. 128 \<le> (of_char c :: nat))
             \<or> ends_inside_group (universal_newlines raw)
             \<or> (\<exists>d. b64decode (universal_newlines raw) = Inr d
                    \<and> (wfault (joinpath output_dir ''encoded.b64'') \<noteq> None
                         \<or> ends_inside_group d
                         \<or> wfault (joinpath output_dir ''decoded.zip'') \<noteq> None))))
   \<and> (fs iso_path = None \<longrightarrow> (\<exists>e. decode_iso wfault fs iso_path output_dir = (fs, Inl e)))
   \<and> (\<exists>e. b64decode s = Inl e) = ends_inside_group s
   \<and> b64decode (significant s) = b64decode s"
proof (intro conjI impI)
  assume a: "fs iso_path = Some (b64encode (b64encode b))
      \<and> wfault (joinpath output_dir ''encoded.b64'') = None
      \<and> wfault (joinpath output_dir ''decoded.zip'') = None"
  have asc: "\<not> (\<exists>c \<in> set (b64encode (b64encode b)). 128 \<le> (of_char c :: nat))"
    using b64encode_ascii[of _ "b64encode b"] by (metis not_le)
  have "CHR 0x0D \<notin> set (b64encode (b64encode b))"
    using b64encode_ascii[of "CHR 0x0D" "b64encode b"] by blast
  then have un: "universal_newlines (b64encode (b64encode b)) = b64encode (b64encode b)"
    by (rule universal_newlines_id)
  show "decode_iso wfault fs iso_path output_dir
        = (fs(joinpath output_dir ''encoded.b64'' \<mapsto> b64encode b,
              joinpath output_dir ''decoded.zip'' \<mapsto> b),
           Inr (joinpath output_dir ''decoded.zip''))"
    unfolding decode_iso_def using a asc
    by (simp add: un b64decode_b64encode Let_def)
next
  assume f: "fs iso_path = Some raw"
  show "(\<exists>e. snd (decode_iso wfault fs iso_path output_dir) = Inl e)
          = ((\<exists>c \<in> set raw. 128 \<le> (of_char c :: nat))
             \<or> ends_inside_group (universal_newlines raw)
             \<or> (\<exists>d. b64decode (universal_newlines raw) = Inr d
                    \<and> (wfault (joinpath output_dir ''encoded.b64'') \<noteq> None
                         \<or> ends_inside_group d
                         \<or> wfault (joinpath output_dir ''decoded.zip'') \<noteq> None)))"
  proof (cases "\<exists>c \<in> set raw. 128 \<le> (of_char c :: nat)")
    case True
    then show ?thesis unfolding decode_iso_def using f by simp
  next
    case asc: False
    show ?thesis
    proof (cases "b64decode (universal_newlines raw)")
      case (Inl e)
      then have "ends_inside_group (universal_newlines raw)"
        using b64decode_raises_iff[of "universal_newlines raw"] by simp
      then show ?thesis unfolding decode_iso_def using f asc Inl by (simp add: Let_def)
    next
      case (Inr d)
      then have n1: "\<not> ends_inside_group (universal_newlines raw)"
        using b64decode_raises_iff[of "universal_newlines raw"] by simp
      show ?thesis
      proof (cases "wfault (joinpath output_dir ''encoded.b64'')")
        case (Some e)
        then show ?thesis unfolding decode_iso_def using f asc Inr by (simp add: Let_def)
      next
        case w1: None
        show ?thesis
        proof (cases "b64decode d")
          case (Inl e)
          then have "ends_inside_group d" using b64decode_raises_iff[of d] by simp
          then show ?thesis unfolding decode_iso_def using f asc Inr w1 Inl by (simp add: Let_def)
        next
          case d2: (Inr d2)
          then have n2: "\<not> ends_inside_group d" using b64decode_raises_iff[of d] by simp
          show ?thesis
            unfolding decode_iso_def using f asc Inr w1 d2 n1 n2
            by (cases "wfault (joinpath output_dir ''decoded.zip'')") (simp_all add: Let_def)
        qed
      qed
    qed
  qed
next
  assume "fs iso_path = None"
  then show "\<exists>e. decode_iso wfault fs iso_path output_dir = (fs, Inl e)"
    by (simp add: decode_iso_def)
next
  show "(\<exists>e. b64decode s = Inl e) = ends_inside_group s" by (rule b64decode_raises_iff)
  show "b64decode (significant s) = b64decode s" by (rule b64decode_significant)
qed

lemma encode_ABC1: "b64encode ''ABC'' = ''QUJD''"
  by code_simp

lemma encode_ABC2: "b64encode (b64encode ''ABC'') = ''UVVKRA==''"
  by code_simp

lemma ends_examples:
  "ends_inside_group (universal_newlines ''QUJDRA='')"
  "\<not> ends_inside_group (universal_newlines ''UVVKRFI='')"
  "b64decode (universal_newlines ''UVVKRFI='') = Inr ''QUJDR''"
  "ends_inside_group ''QUJDR''"
  "\<not> (\<exists>c \<in> set ''UVVKRFI=''. 128 \<le> (of_char c :: nat))"
  by code_simp+

theorem decode_iso_roundtrip_witness:
  "decode_iso no_wfault (one_file ''p'' ''UVVKRA=='') ''p'' ''out''
       = ((one_file ''p'' ''UVVKRA=='')(''out/encoded.b64'' \<mapsto> ''QUJD'', ''out/decoded.zip'' \<mapsto> ''ABC''),
          Inr ''out/decoded.zip'')
   \<and> (\<exists>e. snd (decode_iso no_wfault (one_file ''p'' ''QUJDRA='') ''p'' ''out'') = Inl e)
   \<and> (\<exists>e. snd (decode_iso no_wfault (one_file ''p'' ''UVVKRFI='') ''p'' ''out'') = Inl e)
   \<and> (\<exists>e. decode_iso no_wfault (one_file ''p'' ''UVVKRA=='') ''q'' ''out''
            = (one_file ''p'' ''UVVKRA=='', Inl e))"
proof -
  have f1: "one_file ''p'' ''UVVKRA=='' ''p'' = Some (b64encode (b64encode ''ABC''))
      \<and> no_wfault (joinpath ''out'' ''encoded.b64'') = None
      \<and> no_wfault (joinpath ''out'' ''decoded.zip'') = None"
    by (simp add: one_file_def no_wfault_def encode_ABC2 del: b64encode.simps)
  have f2: "one_file ''p'' ''QUJDRA='' ''p'' = Some ''QUJDRA=''" by (simp add: one_file_def)
  have f3: "one_file ''p'' ''UVVKRFI='' ''p'' = Some ''UVVKRFI=''" by (simp add: one_file_def)
  have f4: "one_file ''p'' ''UVVKRA=='' ''q'' = None" by (simp add: one_file_def)
  have a: "decode_iso no_wfault (one_file ''p'' ''UVVKRA=='') ''p'' ''out''
       = ((one_file ''p'' ''UVVKRA=='')(joinpath ''out'' ''encoded.b64'' \<mapsto> b64encode ''ABC'',
             joinpath ''out'' ''decoded.zip'' \<mapsto> ''ABC''),
          Inr (joinpath ''out'' ''decoded.zip''))"
    using decode_iso_roundtrip[where fs = "one_file ''p'' ''UVVKRA==''" and iso_path = "''p''"
            and b = "''ABC''" and output_dir = "''out''" and wfault = no_wfault] f1
    by blast
  have b: "\<exists>e. snd (decode_iso no_wfault (one_file ''p'' ''QUJDRA='') ''p'' ''out'') = Inl e"
    using decode_iso_roundtrip[where fs = "one_file ''p'' ''QUJDRA=''" and iso_path = "''p''"
            and raw = "''QUJDRA=''" and output_dir = "''out''" and wfault = no_wfault]
          f2 ends_examples(1)
    by blast
  have c: "\<exists>e. snd (decode_iso no_wfault (one_file ''p'' ''UVVKRFI='') ''p'' ''out'') = Inl e"
    using decode_iso_roundtrip[where fs = "one_file ''p'' ''UVVKRFI=''" and iso_path = "''p''"
            and raw = "''UVVKRFI=''" and output_dir = "''out''" and wfault = no_wfault]
          f3 ends_examples(3,4)
    by blast
  have d: "\<exists>e. decode_iso no_wfault (one_file ''p'' ''UVVKRA=='') ''q'' ''out''
            = (one_file ''p'' ''UVVKRA=='', Inl e)"
    using decode_iso_roundtrip[where fs = "one_file ''p'' ''UVVKRA==''" and iso_path = "''q''"
            and output_dir = "''out''" and wfault = no_wfault] f4
    by blast
  show ?thesis using a b c d by (simp add: joinpath_def encode_ABC1 del: b64encode.simps)
qed

end
